theory Spec2Isabelle
  imports Main "HOL-Library.AList" "HOL-Library.Multiset"
begin

text \<open>
  A model of the BrewBuddy backend: the route handlers of server.js (registration, token
  validation, the coffee list of a user, the analysis of a coffee label by an external
  service) over the two tables of the database, the query helpers of db/database.js, and
  the earlier analyze server whose text follows the database module in db/database.js.

  A handler is first a function from the database, the request and what the environment
  contributes (the clock, the token generator, the external service) to the response
  and the database afterwards; what a handler throws is a value that its \<open>catch\<close>
  block turns into a response. That function is the handler when no statement of
  another request comes between its own. The handlers are \<open>async\<close> and open no
  transaction, so the state machine further down splits each of them at its
  \<open>await\<close>s, one database statement at a time, and lets the requests in progress
  take their turns in any order. The middleware in front of the handlers (CORS, the two
  rate limiters, the JSON body parser) and the start-up code are not modelled: a request
  is what reaches a handler.
\<close>

section \<open>JSON values and the JavaScript operations the handlers apply to them\<close>

text \<open>
  Request bodies, upstream replies and response bodies are JSON values. An object is an
  association list; a lookup returns the first binding of a key, and two objects have the
  same content when all lookups agree. Numbers are modelled by integers: the handlers only
  test them for being zero or positive. Strings are lists of characters (code units), so
  that \<open>length\<close> is JavaScript's \<open>.length\<close>.
\<close>

datatype json =
    JNull
  | JBool bool
  | JNum int
  | JStr string
  | JArr "json list"
  | JObj "(string \<times> json) list"

text \<open>
  What a \<open>throw\<close> carries into the handlers' \<open>catch\<close> blocks:
  \<open>new Error(message)\<close> with the value given as message, a \<open>TypeError\<close> of the
  engine (a property of \<open>undefined\<close> or \<open>null\<close>, a call of something that is no
  function, an iteration over something not iterable, a rejected \<open>fetch\<close>), the
  \<open>SyntaxError\<close> of \<open>JSON.parse\<close> and \<open>response.json()\<close>, and the
  database driver's constraint error.
\<close>

datatype exn = Error json | TypeError | SyntaxError | SQLITE_CONSTRAINT

text \<open>
  Built-ins of the platform that the handlers call and whose results are text or
  floating point: \<open>JSON.stringify\<close>, \<open>JSON.parse\<close> (\<open>None\<close> when it throws),
  the comparison \<open>v > 0\<close> for a value \<open>v\<close> that is a string, an array or an
  object (it goes through \<open>ToPrimitive\<close> and \<open>StringToNumber\<close>, and can throw),
  and the message text the engine gives to the errors it throws itself.
  They are parameters of the model.
\<close>

record platform =
  JSON_stringify :: "json \<Rightarrow> string"
  JSON_parse :: "string \<Rightarrow> json option"
  ToNumber_gt0 :: "json \<Rightarrow> exn + bool"
  error_message :: "exn \<Rightarrow> string"

text \<open>Truthiness; \<open>None\<close> is \<open>undefined\<close>.\<close>

fun truthy :: "json \<Rightarrow> bool" where
  "truthy JNull = False"
| "truthy (JBool b) = b"
| "truthy (JNum n) = (n \<noteq> 0)"
| "truthy (JStr s) = (s \<noteq> [])"
| "truthy (JArr xs) = True"
| "truthy (JObj kvs) = True"

fun truthy_opt :: "json option \<Rightarrow> bool" where
  "truthy_opt None = False"
| "truthy_opt (Some v) = truthy v"

text \<open>\<open>a || d\<close> for a constant \<open>d\<close>.\<close>

definition js_or :: "json option \<Rightarrow> json \<Rightarrow> json" where
  "js_or a d = (case a of None \<Rightarrow> d | Some v \<Rightarrow> (if truthy v then v else d))"

text \<open>
  \<open>v.k\<close> for the member names the handlers read (\<open>error\<close>, \<open>message\<close>,
  \<open>content\<close>, \<open>text\<close> and the seven coffee fields): a \<open>TypeError\<close> on
  \<open>undefined\<close> and \<open>null\<close>, the own member of an object, and \<open>undefined\<close> on
  every other value (none of these names is a member of a string, number, boolean or array).
\<close>

fun get_prop :: "json option \<Rightarrow> string \<Rightarrow> exn + json option" where
  "get_prop None k = Inl TypeError"
| "get_prop (Some JNull) k = Inl TypeError"
| "get_prop (Some (JObj kvs)) k = Inr (map_of kvs k)"
| "get_prop (Some v) k = Inr None"

text \<open>\<open>v[0]\<close>.\<close>

fun get_index0 :: "json option \<Rightarrow> exn + json option" where
  "get_index0 None = Inl TypeError"
| "get_index0 (Some JNull) = Inl TypeError"
| "get_index0 (Some (JArr xs)) = Inr (case xs of [] \<Rightarrow> None | x # _ \<Rightarrow> Some x)"
| "get_index0 (Some (JStr s)) = Inr (case s of [] \<Rightarrow> None | c # _ \<Rightarrow> Some (JStr [c]))"
| "get_index0 (Some (JObj kvs)) = Inr (map_of kvs ''0'')"
| "get_index0 (Some v) = Inr None"

text \<open>\<open>v.length\<close> of a value that is neither \<open>undefined\<close> nor \<open>null\<close>.\<close>

fun js_length :: "json \<Rightarrow> json option" where
  "js_length (JArr xs) = Some (JNum (int (length xs)))"
| "js_length (JStr s) = Some (JNum (int (length s)))"
| "js_length (JObj kvs) = map_of kvs ''length''"
| "js_length v = None"

text \<open>\<open>v > 0\<close>: \<open>undefined\<close> is \<open>NaN\<close>, \<open>null\<close> is 0, \<open>true\<close> is 1.\<close>

fun js_gt0 :: "platform \<Rightarrow> json option \<Rightarrow> exn + bool" where
  "js_gt0 P None = Inr False"
| "js_gt0 P (Some JNull) = Inr False"
| "js_gt0 P (Some (JBool b)) = Inr b"
| "js_gt0 P (Some (JNum n)) = Inr (0 < n)"
| "js_gt0 P (Some v) = ToNumber_gt0 P v"

text \<open>The values a \<open>for ... of\<close> loop visits; only arrays and strings are iterable.\<close>

fun js_iterate :: "json \<Rightarrow> exn + json list" where
  "js_iterate (JArr xs) = Inr xs"
| "js_iterate (JStr s) = Inr (map (\<lambda>c. JStr [c]) s)"
| "js_iterate v = Inl TypeError"

text \<open>
  Whitespace as \<open>String.prototype.trim\<close> and the regular expression class \<open>\s\<close>
  see it among 8-bit characters: tab, line feed, vertical tab, form feed, carriage
  return, space and the no-break space.
\<close>

definition is_space :: "char \<Rightarrow> bool" where
  "is_space c = (c \<in> set [CHR 0x09, CHR 0x0A, CHR 0x0B, CHR 0x0C, CHR 0x0D, CHR 0x20, CHR 0xA0])"

definition trim :: "string \<Rightarrow> string" where
  "trim s = rev (dropWhile is_space (rev (dropWhile is_space s)))"

text \<open>SQLite's \<open>LOWER\<close>: the letters A to Z are folded, every other character is kept.\<close>

definition lower_char :: "char \<Rightarrow> char" where
  "lower_char c =
     (let n = (of_char c :: nat) in if 65 \<le> n \<and> n \<le> 90 then char_of (n + 32) else c)"

definition LOWER :: "string \<Rightarrow> string" where
  "LOWER s = map lower_char s"

text \<open>Sequencing of steps that can throw.\<close>

definition try_bind :: "exn + 'a \<Rightarrow> ('a \<Rightarrow> exn + 'b) \<Rightarrow> exn + 'b" where
  "try_bind m f = (case m of Inl e \<Rightarrow> Inl e | Inr x \<Rightarrow> f x)"

text \<open>A response: the HTTP status and the JSON body given to \<open>res.json\<close>.\<close>

record response =
  status :: nat
  json_body :: json

definition respond :: "nat \<Rightarrow> (string \<times> json) list \<Rightarrow> response" where
  "respond code members = \<lparr>status = code, json_body = JObj members\<rparr>"

section \<open>The database\<close>

text \<open>
  The two tables of \<open>initDatabase\<close> (server.js and db/database.js create the same
  schema). A table is the list of its rows in insertion order. \<open>created_at\<close> is the
  reading of the database clock (\<open>CURRENT_TIMESTAMP\<close>, whole seconds) at the insert,
  modelled by the number of seconds. \<open>users_seq\<close> and \<open>coffees_seq\<close> are the
  \<open>AUTOINCREMENT\<close> counters: the largest id ever given in the table.
\<close>

record user_row =
  u_id :: nat
  u_username :: string
  u_token :: string
  u_created_at :: nat

record coffee_row =
  c_id :: nat
  c_user_id :: nat
  c_data :: string
  c_created_at :: nat

record database =
  users :: "user_row list"
  coffees :: "coffee_row list"
  users_seq :: nat
  coffees_seq :: nat

definition empty_database :: database where
  "empty_database = \<lparr>users = [], coffees = [], users_seq = 0, coffees_seq = 0\<rparr>"

text \<open>
  \<open>INTEGER PRIMARY KEY AUTOINCREMENT\<close>: one more than the largest id that the table
  holds or ever held.
\<close>

definition next_id :: "nat \<Rightarrow> nat list \<Rightarrow> nat" where
  "next_id seq ids = Suc (foldr max ids seq)"

text \<open>\<open>SELECT COUNT(*) as count FROM users\<close> (\<open>queries.getUserCount\<close>).\<close>

definition getUserCount :: "database \<Rightarrow> nat" where
  "getUserCount d = length (users d)"

text \<open>\<open>SELECT id FROM users WHERE LOWER(username) = LOWER(?)\<close>: the first row, if any.\<close>

definition select_user_lower :: "database \<Rightarrow> string \<Rightarrow> user_row option" where
  "select_user_lower d username = find (\<lambda>u. LOWER (u_username u) = LOWER username) (users d)"

text \<open>\<open>queries.usernameExists\<close>: \<open>!!result\<close> of the same query.\<close>

definition usernameExists :: "database \<Rightarrow> string \<Rightarrow> bool" where
  "usernameExists d username = (select_user_lower d username \<noteq> None)"

text \<open>\<open>SELECT ... FROM users WHERE token = ?\<close> (\<open>queries.getUserByToken\<close>).\<close>

definition getUserByToken :: "database \<Rightarrow> string \<Rightarrow> user_row option" where
  "getUserByToken d token = find (\<lambda>u. u_token u = token) (users d)"

text \<open>
  \<open>INSERT INTO users (username, token) VALUES (?, ?)\<close> (\<open>queries.createUser\<close>):
  both columns are \<open>UNIQUE\<close>, compared exactly; the result carries \<open>lastID\<close>.
\<close>

definition createUser :: "database \<Rightarrow> string \<Rightarrow> string \<Rightarrow> nat \<Rightarrow> exn + database \<times> nat" where
  "createUser d username token now =
     (if list_ex (\<lambda>u. u_username u = username \<or> u_token u = token) (users d)
      then Inl SQLITE_CONSTRAINT
      else let lastID = next_id (users_seq d) (map u_id (users d)) in
        Inr (d\<lparr>users := users d @
                 [\<lparr>u_id = lastID, u_username = username, u_token = token, u_created_at = now\<rparr>],
               users_seq := lastID\<rparr>, lastID))"

text \<open>\<open>DELETE FROM coffees WHERE user_id = ?\<close> (\<open>queries.deleteUserCoffees\<close>).\<close>

definition deleteUserCoffees :: "database \<Rightarrow> nat \<Rightarrow> database" where
  "deleteUserCoffees d userId = d\<lparr>coffees := filter (\<lambda>c. c_user_id c \<noteq> userId) (coffees d)\<rparr>"

text \<open>\<open>INSERT INTO coffees (user_id, data) VALUES (?, ?)\<close> (\<open>queries.saveCoffee\<close>).\<close>

definition saveCoffee :: "database \<Rightarrow> nat \<Rightarrow> string \<Rightarrow> nat \<Rightarrow> database" where
  "saveCoffee d userId data now =
     (let lastID = next_id (coffees_seq d) (map c_id (coffees d)) in
        d\<lparr>coffees := coffees d @
             [\<lparr>c_id = lastID, c_user_id = userId, c_data = data, c_created_at = now\<rparr>],
          coffees_seq := lastID\<rparr>)"

text \<open>
  \<open>SELECT id, data, created_at FROM coffees WHERE user_id = ? ORDER BY created_at DESC\<close>
  (\<open>queries.getUserCoffees\<close>): newest first; rows of the same second stay in insertion
  order, as a scan of the index \<open>idx_coffees_user_created\<close> returns them.
\<close>

definition getUserCoffees :: "database \<Rightarrow> nat \<Rightarrow> coffee_row list" where
  "getUserCoffees d userId =
     sort_key (\<lambda>c. - int (c_created_at c)) (filter (\<lambda>c. c_user_id c = userId) (coffees d))"

section \<open>Authentication endpoints (server.js)\<close>

text \<open>
  The body of \<open>POST /api/auth/register\<close>: the \<open>username\<close> member, \<open>None\<close> when
  the body has none.
\<close>

record register_req =
  req_username :: "json option"

definition server_error :: response where
  "server_error = respond 500 [(''success'', JBool False), (''error'', JStr ''Server error'')]"

text \<open>
  \<open>POST /api/auth/register\<close>. \<open>uuid\<close> is what \<open>uuidv4()\<close> returns and \<open>now\<close> the
  database clock, both given by the environment. A truthy \<open>username\<close> that is no string
  has no \<open>trim\<close> method: the call throws and the \<open>catch\<close> block answers.
\<close>

definition register :: "database \<Rightarrow> string \<Rightarrow> nat \<Rightarrow> register_req \<Rightarrow> database \<times> response" where
  "register d uuid now req =
     (if \<not> truthy_opt (req_username req) then
        (d, respond 400 [(''success'', JBool False),
                         (''error'', JStr ''Username must be at least 2 characters'')])
      else case req_username req of
        Some (JStr username) \<Rightarrow>
          if length (trim username) < 2 then
            (d, respond 400 [(''success'', JBool False),
                             (''error'', JStr ''Username must be at least 2 characters'')])
          else if 10 \<le> getUserCount d then
            (d, respond 403 [(''success'', JBool False),
                             (''error'', JStr ''Tester limit reached (10/10)''),
                             (''spotsRemaining'', JNum 0)])
          else (case select_user_lower d (trim username) of
              Some existing \<Rightarrow>
                (d, respond 409 [(''success'', JBool False),
                                 (''error'', JStr ''Username already taken'')])
            | None \<Rightarrow>
                (case createUser d (trim username) uuid now of
                   Inl e \<Rightarrow> (d, server_error)
                 | Inr (d', lastID) \<Rightarrow>
                     (d', respond 200
                        [(''success'', JBool True),
                         (''user'', JObj [(''id'', JNum (int lastID)),
                                          (''username'', JStr (trim username)),
                                          (''token'', JStr uuid)]),
                         (''spotsRemaining'', JNum (10 - int (getUserCount d')))])))
      | _ \<Rightarrow> (d, server_error))"

text \<open>
  \<open>GET /api/auth/validate\<close>; \<open>token\<close> is the query parameter, \<open>None\<close> when the
  request has none.
\<close>

definition validate :: "database \<Rightarrow> string option \<Rightarrow> response" where
  "validate d token =
     (case token of
        None \<Rightarrow> respond 400 [(''success'', JBool False), (''error'', JStr ''Token required'')]
      | Some t \<Rightarrow>
          if t = [] then
            respond 400 [(''success'', JBool False), (''error'', JStr ''Token required'')]
          else (case getUserByToken d t of
              None \<Rightarrow> respond 401 [(''success'', JBool False), (''valid'', JBool False),
                                    (''error'', JStr ''Invalid token'')]
            | Some user \<Rightarrow>
                respond 200 [(''success'', JBool True), (''valid'', JBool True),
                             (''user'', JObj [(''id'', JNum (int (u_id user))),
                                              (''username'', JStr (u_username user)),
                                              (''createdAt'', JNum (int (u_created_at user)))])]))"

section \<open>Coffee data endpoints (server.js)\<close>

text \<open>Decimal digits of an array index, the member name an index has in a spread.\<close>

fun string_of_nat :: "nat \<Rightarrow> string" where
  "string_of_nat n =
     (if n < 10 then [char_of (48 + n)]
      else string_of_nat (n div 10) @ [char_of (48 + n mod 10)])"

text \<open>
  The own members that \<open>{...v}\<close> copies, in their order: those of an object (each name
  once; of a name bound twice in the list the first binding counts, as in a lookup), the
  indexed elements of an array, the indexed characters of a string, nothing for another
  value.
\<close>

fun own_members :: "json \<Rightarrow> (string \<times> json) list" where
  "own_members (JObj kvs) = AList.clearjunk kvs"
| "own_members (JArr xs) = zip (map string_of_nat [0..<length xs]) xs"
| "own_members (JStr s) = zip (map string_of_nat [0..<length s]) (map (\<lambda>c. JStr [c]) s)"
| "own_members v = []"

text \<open>
  \<open>{ ...target, ...v }\<close>: each own member of \<open>v\<close> is written into the object built so
  far; a member that is already there keeps its place and gets the new value, a new one
  goes to the end.
\<close>

definition spread :: "(string \<times> json) list \<Rightarrow> json \<Rightarrow> (string \<times> json) list" where
  "spread target v = foldl (\<lambda>acc (k, x). AList.update k x acc) target (own_members v)"

text \<open>
  One element of \<open>coffees.map(c => ({ id: c.id, ...JSON.parse(c.data), savedAt: c.created_at }))\<close>.
\<close>

definition merged_record :: "coffee_row \<Rightarrow> json \<Rightarrow> json" where
  "merged_record c v =
     JObj (AList.update ''savedAt'' (JNum (int (c_created_at c)))
             (spread [(''id'', JNum (int (c_id c)))] v))"

fun parse_rows :: "platform \<Rightarrow> coffee_row list \<Rightarrow> exn + json list" where
  "parse_rows P [] = Inr []"
| "parse_rows P (c # cs) =
     (case JSON_parse P (c_data c) of
        None \<Rightarrow> Inl SyntaxError
      | Some v \<Rightarrow>
          (case parse_rows P cs of
             Inl e \<Rightarrow> Inl e
           | Inr vs \<Rightarrow> Inr (merged_record c v # vs)))"

text \<open>\<open>GET /api/coffees\<close>; \<open>token\<close> is the query parameter.\<close>

definition get_coffees :: "platform \<Rightarrow> database \<Rightarrow> string option \<Rightarrow> response" where
  "get_coffees P d token =
     (case token of
        None \<Rightarrow> respond 401 [(''success'', JBool False), (''error'', JStr ''Unauthorized'')]
      | Some t \<Rightarrow>
          if t = [] then
            respond 401 [(''success'', JBool False), (''error'', JStr ''Unauthorized'')]
          else (case getUserByToken d t of
              None \<Rightarrow> respond 401 [(''success'', JBool False), (''error'', JStr ''Invalid token'')]
            | Some user \<Rightarrow>
                (case parse_rows P (getUserCoffees d (u_id user)) of
                   Inl e \<Rightarrow> server_error
                 | Inr parsed \<Rightarrow>
                     respond 200 [(''success'', JBool True), (''coffees'', JArr parsed)])))"

text \<open>
  The body of \<open>POST /api/coffees\<close>: the \<open>token\<close> member when it is a string
  (\<open>None\<close> when it is absent or \<open>null\<close>) and the \<open>coffees\<close> member, any JSON value
  (\<open>None\<close> when absent).
\<close>

record coffees_req =
  req_token :: "string option"
  req_coffees :: "json option"

text \<open>
  The loop \<open>for (const coffee of coffees) await stmt.run(user.id, JSON.stringify(coffee))\<close>;
  \<open>clk i\<close> is the reading of the database clock at the insert number \<open>i\<close> of the request.
\<close>

fun insert_all :: "platform \<Rightarrow> (nat \<Rightarrow> nat) \<Rightarrow> nat \<Rightarrow> nat \<Rightarrow> json list \<Rightarrow> database \<Rightarrow> database" where
  "insert_all P clk i userId [] d = d"
| "insert_all P clk i userId (coffee # rest) d =
     insert_all P clk (Suc i) userId rest (saveCoffee d userId (JSON_stringify P coffee) (clk i))"

text \<open>
  Lines 324 to 334: \<open>if (coffees && coffees.length > 0) { ... }\<close>. The result is the
  database reached and, when a step threw, what it threw.
\<close>

definition insert_coffees :: "platform \<Rightarrow> (nat \<Rightarrow> nat) \<Rightarrow> database \<Rightarrow> nat \<Rightarrow> json option \<Rightarrow> database \<times> exn option" where
  "insert_coffees P clk d userId coffees' =
     (case coffees' of
        None \<Rightarrow> (d, None)
      | Some v \<Rightarrow>
          if \<not> truthy v then (d, None)
          else (case js_gt0 P (js_length v) of
              Inl e \<Rightarrow> (d, Some e)
            | Inr positive \<Rightarrow>
                if \<not> positive then (d, None)
                else (case js_iterate v of
                    Inl e \<Rightarrow> (d, Some e)
                  | Inr cs \<Rightarrow> (insert_all P clk 0 userId cs d, None))))"

text \<open>\<open>coffees?.length || 0\<close>.\<close>

definition saved_count :: "json option \<Rightarrow> json" where
  "saved_count coffees' =
     (case coffees' of
        None \<Rightarrow> JNum 0
      | Some JNull \<Rightarrow> JNum 0
      | Some v \<Rightarrow> js_or (js_length v) (JNum 0))"

text \<open>
  \<open>POST /api/coffees\<close>. The \<open>DELETE\<close> and every \<open>INSERT\<close> are statements of their
  own (the handler opens no transaction): what a statement wrote stays written when a
  later step throws.
\<close>

definition post_coffees :: "platform \<Rightarrow> (nat \<Rightarrow> nat) \<Rightarrow> database \<Rightarrow> coffees_req \<Rightarrow> database \<times> response" where
  "post_coffees P clk d req =
     (case req_token req of
        None \<Rightarrow> (d, respond 401 [(''success'', JBool False), (''error'', JStr ''Unauthorized'')])
      | Some t \<Rightarrow>
          if t = [] then
            (d, respond 401 [(''success'', JBool False), (''error'', JStr ''Unauthorized'')])
          else (case getUserByToken d t of
              None \<Rightarrow>
                (d, respond 401 [(''success'', JBool False), (''error'', JStr ''Invalid token'')])
            | Some user \<Rightarrow>
                (case insert_coffees P clk (deleteUserCoffees d (u_id user)) (u_id user)
                        (req_coffees req) of
                   (d', Some e) \<Rightarrow> (d', server_error)
                 | (d', None) \<Rightarrow>
                     (d', respond 200 [(''success'', JBool True),
                                       (''saved'', saved_count (req_coffees req))]))))"

section \<open>The AI extraction proxy (server.js)\<close>

text \<open>The body of \<open>POST /api/analyze-coffee\<close>: its two members, \<open>None\<close> when absent.\<close>

record analyze_req =
  req_imageData :: "json option"
  req_mediaType :: "json option"

text \<open>
  The request that \<open>fetch\<close> sends: the address, the three headers and, of the body, the
  model, the token limit, the image source and the instruction text.
\<close>

record fetch_request =
  fr_url :: string
  fr_content_type :: string
  fr_anthropic_version :: string
  fr_x_api_key :: string
  fr_model :: string
  fr_max_tokens :: nat
  fr_media_type :: json
  fr_data :: json
  fr_text :: string

definition analyze_prompt :: string where
  \<open>analyze_prompt =
     ''Analyze this coffee bag and extract the following information as JSON:\<newline>'' @
     ''{\<newline>'' @
     ''  "name": "coffee name or farm name",\<newline>'' @
     ''  "origin": "country and region",\<newline>'' @
     ''  "process": "processing method (washed, natural, honey, etc)",\<newline>'' @
     ''  "cultivar": "variety/cultivar",\<newline>'' @
     ''  "altitude": "altitude in masl",\<newline>'' @
     ''  "roaster": "roaster name",\<newline>'' @
     ''  "tastingNotes": "tasting notes"\<newline>'' @
     ''}\<newline>'' @
     ''\<newline>'' @
     ''Only return valid JSON, no other text.''\<close>

definition anthropic_request :: "string \<Rightarrow> json \<Rightarrow> json option \<Rightarrow> fetch_request" where
  "anthropic_request api_key imageData mediaType =
     \<lparr>fr_url = ''https://api.anthropic.com/v1/messages'',
      fr_content_type = ''application/json'',
      fr_anthropic_version = ''2023-06-01'',
      fr_x_api_key = api_key,
      fr_model = ''claude-sonnet-4-20250514'',
      fr_max_tokens = 1024,
      fr_media_type = js_or mediaType (JStr ''image/jpeg''),
      fr_data = imageData,
      fr_text = analyze_prompt\<rparr>"

text \<open>
  What comes back: \<open>fetch\<close> rejects, or there is a response with its \<open>ok\<close> flag and
  the value of \<open>response.json()\<close> (\<open>None\<close> when the body is no JSON and the call
  throws).
\<close>

datatype fetch_result = Rejected | Responded bool "json option"

text \<open>
  The regular expression \<open>/\{[\s\S]*\}/\<close>: the match starts at the first opening brace
  that has a closing brace somewhere after it and, the star being greedy, runs to the
  last closing brace of the text. A closing brace after the first opening brace is the
  condition for any match at all.
\<close>

definition match_braces :: "string \<Rightarrow> string option" where
  "match_braces text =
     (case dropWhile (\<lambda>c. c \<noteq> CHR ''{'') text of
        [] \<Rightarrow> None
      | open_brace # rest \<Rightarrow>
          if CHR ''}'' \<in> set rest
          then Some (open_brace # rev (dropWhile (\<lambda>c. c \<noteq> CHR ''}'') (rev rest)))
          else None)"

text \<open>\<open>data.error?.message || 'API error'\<close>.\<close>

definition api_error_message :: "json \<Rightarrow> exn + json" where
  "api_error_message data =
     try_bind (get_prop (Some data) ''error'') (\<lambda>err.
       case err of
         None \<Rightarrow> Inr (JStr ''API error'')
       | Some JNull \<Rightarrow> Inr (JStr ''API error'')
       | Some e \<Rightarrow>
           try_bind (get_prop (Some e) ''message'') (\<lambda>message.
             Inr (js_or message (JStr ''API error''))))"

text \<open>\<open>data.content[0].text\<close>.\<close>

definition first_content_text :: "json \<Rightarrow> exn + json option" where
  "first_content_text data =
     try_bind (get_prop (Some data) ''content'') (\<lambda>content.
       try_bind (get_index0 content) (\<lambda>block.
         get_prop block ''text''))"

text \<open>\<open>text.match(/\{[\s\S]*\}/)\<close>: only a string has the method.\<close>

fun text_match :: "json option \<Rightarrow> exn + string option" where
  "text_match (Some (JStr text)) = Inr (match_braces text)"
| "text_match v = Inl TypeError"

text \<open>
  The object literal of lines 423 to 432; \<open>now\<close> is \<open>new Date().toISOString()\<close>.
\<close>

definition coffee_data :: "json \<Rightarrow> string \<Rightarrow> exn + json" where
  "coffee_data coffeeData now =
     try_bind (get_prop (Some coffeeData) ''name'') (\<lambda>name.
     try_bind (get_prop (Some coffeeData) ''origin'') (\<lambda>origin.
     try_bind (get_prop (Some coffeeData) ''process'') (\<lambda>process.
     try_bind (get_prop (Some coffeeData) ''cultivar'') (\<lambda>cultivar.
     try_bind (get_prop (Some coffeeData) ''altitude'') (\<lambda>altitude.
     try_bind (get_prop (Some coffeeData) ''roaster'') (\<lambda>roaster.
     try_bind (get_prop (Some coffeeData) ''tastingNotes'') (\<lambda>tastingNotes.
       Inr (JObj [(''name'', js_or name (JStr ''Unknown'')),
                  (''origin'', js_or origin (JStr ''Unknown'')),
                  (''process'', js_or process (JStr ''washed'')),
                  (''cultivar'', js_or cultivar (JStr ''Unknown'')),
                  (''altitude'', js_or altitude (JStr ''1500'')),
                  (''roaster'', js_or roaster (JStr ''Unknown'')),
                  (''tastingNotes'', js_or tastingNotes (JStr ''No notes'')),
                  (''addedDate'', JStr now)]))))))))"

text \<open>Lines 406 to 433: from the upstream result to the success response, or a throw.\<close>

definition analyze_reply :: "platform \<Rightarrow> string \<Rightarrow> fetch_result \<Rightarrow> exn + response" where
  "analyze_reply P now result =
     (case result of
        Rejected \<Rightarrow> Inl TypeError
      | Responded ok None \<Rightarrow> Inl SyntaxError
      | Responded ok (Some data) \<Rightarrow>
          if \<not> ok then try_bind (api_error_message data) (\<lambda>message. Inl (Error message))
          else
            try_bind (first_content_text data) (\<lambda>text.
            try_bind (text_match text) (\<lambda>jsonMatch.
              case jsonMatch of
                None \<Rightarrow> Inl (Error (JStr ''Could not parse coffee data''))
              | Some span \<Rightarrow>
                  (case JSON_parse P span of
                     None \<Rightarrow> Inl SyntaxError
                   | Some coffeeData \<Rightarrow>
                       try_bind (coffee_data coffeeData now) (\<lambda>data.
                         Inr (respond 200 [(''success'', JBool True), (''data'', data)]))))))"

text \<open>
  What one request to the handler does: the response sent, the requests made to the
  external service, and what \<open>console.error\<close> wrote of the error caught.
\<close>

record analyze_outcome =
  sent :: response
  fetched :: "fetch_request list"
  logged :: "exn list"

definition analysis_failed :: response where
  "analysis_failed =
     respond 500 [(''success'', JBool False), (''error'', JStr ''Analysis failed. Please try again.'')]"

text \<open>
  \<open>POST /api/analyze-coffee\<close>. \<open>api_key\<close> is \<open>process.env.ANTHROPIC_API_KEY\<close>,
  \<open>now\<close> the clock and \<open>fetch\<close> the external service as the network presents it.
\<close>

definition analyze_coffee :: "platform \<Rightarrow> string \<Rightarrow> string \<Rightarrow> (fetch_request \<Rightarrow> fetch_result) \<Rightarrow> analyze_req \<Rightarrow> analyze_outcome" where
  "analyze_coffee P api_key now fetch req =
     (case req_imageData req of
        None \<Rightarrow>
          \<lparr>sent = respond 400 [(''success'', JBool False), (''error'', JStr ''Image data required'')],
           fetched = [], logged = []\<rparr>
      | Some imageData \<Rightarrow>
          if \<not> truthy imageData then
            \<lparr>sent = respond 400 [(''success'', JBool False), (''error'', JStr ''Image data required'')],
             fetched = [], logged = []\<rparr>
          else
            let request = anthropic_request api_key imageData (req_mediaType req) in
              (case analyze_reply P now (fetch request) of
                 Inr response \<Rightarrow> \<lparr>sent = response, fetched = [request], logged = []\<rparr>
               | Inl error \<Rightarrow> \<lparr>sent = analysis_failed, fetched = [request], logged = [error]\<rparr>))"

section \<open>The service as a state machine\<close>

text \<open>
  One request to the service, with what the environment contributes to it: the token
  \<open>uuidv4()\<close> returns and the clock for a registration, the clock readings for the
  inserts of a save.
\<close>

datatype event =
    Register register_req string nat
  | Validate "string option"
  | GetCoffees "string option"
  | PostCoffees coffees_req "nat \<Rightarrow> nat"
  | AnalyzeCoffee analyze_req

text \<open>
  The database after a request that is handled to its end with no statement of another
  request in between; three of the five handlers only read.
\<close>

fun serve :: "platform \<Rightarrow> database \<Rightarrow> event \<Rightarrow> database" where
  "serve P d (Register req uuid now) = fst (register d uuid now req)"
| "serve P d (Validate token) = d"
| "serve P d (GetCoffees token) = d"
| "serve P d (PostCoffees req clk) = fst (post_coffees P clk d req)"
| "serve P d (AnalyzeCoffee req) = d"

text \<open>Registrations handled in this way, one after the other, with the responses in order.\<close>

fun register_all :: "database \<Rightarrow> (register_req \<times> string \<times> nat) list \<Rightarrow> database \<times> response list" where
  "register_all d [] = (d, [])"
| "register_all d ((req, uuid, now) # rest) =
     (case register d uuid now req of
        (d1, r) \<Rightarrow> (case register_all d1 rest of (d2, rs) \<Rightarrow> (d2, r # rs)))"

subsection \<open>Handlers that overlap\<close>

text \<open>
  The handlers are \<open>async\<close> functions: a handler runs until it reaches an \<open>await\<close>,
  and while it waits for the database (or for the external service) the handlers of
  other requests run. No handler opens a transaction, so every statement is applied to
  the database on its own. A request in progress is the statement its handler waits
  for, with the values the rest of the handler uses; \<open>Done\<close> is a request that has been
  answered.
\<close>

datatype task =
    Done response
  | Register_count string string nat
  | Register_lookup string string nat
  | Register_insert string string nat
  | Register_recount nat string string
  | Validate_user string
  | Get_user string
  | Get_rows nat
  | Post_user string "json option" "nat \<Rightarrow> nat"
  | Post_delete nat "json option" "nat \<Rightarrow> nat"
  | Post_prepare nat json "nat \<Rightarrow> nat"
  | Post_insert nat json "json list" nat json "nat \<Rightarrow> nat"
  | Post_finalize json
  | Fetching analyze_req

text \<open>
  What a handler does when its request arrives, up to its first \<open>await\<close>: the \<open>if\<close> at
  its head answers at once, otherwise the first statement is sent to the database (the
  request to the external service, for an analysis).
\<close>

fun start :: "event \<Rightarrow> task" where
  "start (Register req uuid now) =
     (if \<not> truthy_opt (req_username req) then
        Done (respond 400 [(''success'', JBool False),
                           (''error'', JStr ''Username must be at least 2 characters'')])
      else case req_username req of
        Some (JStr username) \<Rightarrow>
          if length (trim username) < 2 then
            Done (respond 400 [(''success'', JBool False),
                               (''error'', JStr ''Username must be at least 2 characters'')])
          else Register_count (trim username) uuid now
      | _ \<Rightarrow> Done server_error)"
| "start (Validate token) =
     (case token of
        None \<Rightarrow> Done (respond 400 [(''success'', JBool False), (''error'', JStr ''Token required'')])
      | Some t \<Rightarrow>
          if t = [] then
            Done (respond 400 [(''success'', JBool False), (''error'', JStr ''Token required'')])
          else Validate_user t)"
| "start (GetCoffees token) =
     (case token of
        None \<Rightarrow> Done (respond 401 [(''success'', JBool False), (''error'', JStr ''Unauthorized'')])
      | Some t \<Rightarrow>
          if t = [] then
            Done (respond 401 [(''success'', JBool False), (''error'', JStr ''Unauthorized'')])
          else Get_user t)"
| "start (PostCoffees req clk) =
     (case req_token req of
        None \<Rightarrow> Done (respond 401 [(''success'', JBool False), (''error'', JStr ''Unauthorized'')])
      | Some t \<Rightarrow>
          if t = [] then
            Done (respond 401 [(''success'', JBool False), (''error'', JStr ''Unauthorized'')])
          else Post_user t (req_coffees req) clk)"
| "start (AnalyzeCoffee req) =
     (case req_imageData req of
        None \<Rightarrow>
          Done (respond 400 [(''success'', JBool False), (''error'', JStr ''Image data required'')])
      | Some imageData \<Rightarrow>
          if \<not> truthy imageData then
            Done (respond 400 [(''success'', JBool False), (''error'', JStr ''Image data required'')])
          else Fetching req)"

text \<open>
  The head of the loop \<open>for (const coffee of coffees)\<close>: the next insert, or
  \<open>stmt.finalize()\<close> when no element is left.
\<close>

fun next_insert :: "nat \<Rightarrow> json list \<Rightarrow> nat \<Rightarrow> json \<Rightarrow> (nat \<Rightarrow> nat) \<Rightarrow> task" where
  "next_insert userId [] i v clk = Post_finalize v"
| "next_insert userId (coffee # rest) i v clk = Post_insert userId coffee rest i v clk"

text \<open>
  The database applies the statement a handler waits for, and the handler runs on to its
  next \<open>await\<close> or to its answer. A handler that waits for the external service, or has
  answered, has no statement.
\<close>

fun step :: "platform \<Rightarrow> database \<Rightarrow> task \<Rightarrow> database \<times> task" where
  "step P d (Done r) = (d, Done r)"
| "step P d (Register_count username uuid now) =
     (d, if 10 \<le> getUserCount d then
           Done (respond 403 [(''success'', JBool False),
                              (''error'', JStr ''Tester limit reached (10/10)''),
                              (''spotsRemaining'', JNum 0)])
         else Register_lookup username uuid now)"
| "step P d (Register_lookup username uuid now) =
     (d, case select_user_lower d username of
           Some existing \<Rightarrow>
             Done (respond 409 [(''success'', JBool False),
                                (''error'', JStr ''Username already taken'')])
         | None \<Rightarrow> Register_insert username uuid now)"
| "step P d (Register_insert username uuid now) =
     (case createUser d username uuid now of
        Inl e \<Rightarrow> (d, Done server_error)
      | Inr (d', lastID) \<Rightarrow> (d', Register_recount lastID username uuid))"
| "step P d (Register_recount lastID username uuid) =
     (d, Done (respond 200
                 [(''success'', JBool True),
                  (''user'', JObj [(''id'', JNum (int lastID)),
                                   (''username'', JStr username),
                                   (''token'', JStr uuid)]),
                  (''spotsRemaining'', JNum (10 - int (getUserCount d)))]))"
| "step P d (Validate_user t) =
     (d, case getUserByToken d t of
           None \<Rightarrow> Done (respond 401 [(''success'', JBool False), (''valid'', JBool False),
                                       (''error'', JStr ''Invalid token'')])
         | Some user \<Rightarrow>
             Done (respond 200 [(''success'', JBool True), (''valid'', JBool True),
                                (''user'', JObj [(''id'', JNum (int (u_id user))),
                                                 (''username'', JStr (u_username user)),
                                                 (''createdAt'', JNum (int (u_created_at user)))])]))"
| "step P d (Get_user t) =
     (d, case getUserByToken d t of
           None \<Rightarrow> Done (respond 401 [(''success'', JBool False), (''error'', JStr ''Invalid token'')])
         | Some user \<Rightarrow> Get_rows (u_id user))"
| "step P d (Get_rows userId) =
     (d, case parse_rows P (getUserCoffees d userId) of
           Inl e \<Rightarrow> Done server_error
         | Inr parsed \<Rightarrow> Done (respond 200 [(''success'', JBool True), (''coffees'', JArr parsed)]))"
| "step P d (Post_user t coffees' clk) =
     (d, case getUserByToken d t of
           None \<Rightarrow> Done (respond 401 [(''success'', JBool False), (''error'', JStr ''Invalid token'')])
         | Some user \<Rightarrow> Post_delete (u_id user) coffees' clk)"
| "step P d (Post_delete userId coffees' clk) =
     (deleteUserCoffees d userId,
      case coffees' of
        None \<Rightarrow> Done (respond 200 [(''success'', JBool True), (''saved'', saved_count coffees')])
      | Some v \<Rightarrow>
          if \<not> truthy v then
            Done (respond 200 [(''success'', JBool True), (''saved'', saved_count coffees')])
          else (case js_gt0 P (js_length v) of
              Inl e \<Rightarrow> Done server_error
            | Inr positive \<Rightarrow>
                if \<not> positive then
                  Done (respond 200 [(''success'', JBool True), (''saved'', saved_count coffees')])
                else Post_prepare userId v clk))"
| "step P d (Post_prepare userId v clk) =
     (d, case js_iterate v of
           Inl e \<Rightarrow> Done server_error
         | Inr cs \<Rightarrow> next_insert userId cs 0 v clk)"
| "step P d (Post_insert userId coffee rest i v clk) =
     (saveCoffee d userId (JSON_stringify P coffee) (clk i), next_insert userId rest (Suc i) v clk)"
| "step P d (Post_finalize v) =
     (d, Done (respond 200 [(''success'', JBool True), (''saved'', saved_count (Some v))]))"
| "step P d (Fetching req) = (d, Fetching req)"

text \<open>
  The external service answers (\<open>fetch\<close> and \<open>response.json()\<close> settle) and the handler
  of the analysis runs to its answer; \<open>now\<close> is the clock at that moment.
\<close>

fun answer :: "platform \<Rightarrow> string \<Rightarrow> fetch_result \<Rightarrow> task \<Rightarrow> task" where
  "answer P now result (Fetching req) =
     Done (case analyze_reply P now result of
             Inr response \<Rightarrow> response
           | Inl error \<Rightarrow> analysis_failed)"
| "answer P now result t = t"

text \<open>The response of a request, once it has been answered.\<close>

fun answered :: "task \<Rightarrow> response option" where
  "answered (Done r) = Some r"
| "answered t = None"

text \<open>
  The server: the database and the requests received so far, in the order of their
  arrival. What happens is that a request arrives, that the database applies the
  statement that the request number \<open>i\<close> waits for, or that the external service
  answers the request number \<open>i\<close>.
\<close>

record server =
  db :: database
  tasks :: "task list"

datatype action = Arrive event | Resume nat | Reply nat fetch_result string

fun act :: "platform \<Rightarrow> server \<Rightarrow> action \<Rightarrow> server" where
  "act P s (Arrive ev) = s\<lparr>tasks := tasks s @ [start ev]\<rparr>"
| "act P s (Resume i) =
     (if i < length (tasks s)
      then case step P (db s) (tasks s ! i) of
             (d', t') \<Rightarrow> \<lparr>db = d', tasks = (tasks s)[i := t']\<rparr>
      else s)"
| "act P s (Reply i result now) =
     (if i < length (tasks s)
      then s\<lparr>tasks := (tasks s)[i := answer P now result (tasks s ! i)]\<rparr>
      else s)"

text \<open>
  A run of the server: the statements of the requests in progress are applied in any
  order, one at a time.
\<close>

definition serve_all :: "platform \<Rightarrow> server \<Rightarrow> action list \<Rightarrow> server" where
  "serve_all P s actions = foldl (act P) s actions"

text \<open>The server when it starts on a new database file.\<close>

definition new_server :: server where
  "new_server = \<lparr>db = empty_database, tasks = []\<rparr>"

text \<open>
  Registrations that do not overlap: each one arrives when the one before it has been
  answered, its four statements applied.
\<close>

fun in_turn :: "nat \<Rightarrow> (register_req \<times> string \<times> nat) list \<Rightarrow> action list" where
  "in_turn k [] = []"
| "in_turn k ((req, uuid, now) # rest) =
     [Arrive (Register req uuid now), Resume k, Resume k, Resume k, Resume k] @ in_turn (Suc k) rest"

text \<open>
  A registration in progress, and the runs in which a registration only arrives when no
  other is in progress (requests of the other kinds overlap as they like).
\<close>

fun registering :: "task \<Rightarrow> bool" where
  "registering (Register_count username uuid now) = True"
| "registering (Register_lookup username uuid now) = True"
| "registering (Register_insert username uuid now) = True"
| "registering (Register_recount lastID username uuid) = True"
| "registering t = False"

fun is_registration :: "action \<Rightarrow> bool" where
  "is_registration (Arrive (Register req uuid now)) = True"
| "is_registration a = False"

fun registrations_in_turn :: "platform \<Rightarrow> server \<Rightarrow> action list \<Rightarrow> bool" where
  "registrations_in_turn P s [] = True"
| "registrations_in_turn P s (a # rest) =
     ((is_registration a \<longrightarrow> \<not> list_ex registering (tasks s))
      \<and> registrations_in_turn P (act P s a) rest)"

text \<open>
  The tokens that requests in progress may still write into the users table, and the
  token a request brings when it arrives.
\<close>

fun task_token :: "task \<Rightarrow> string set" where
  "task_token (Register_count username uuid now) = {uuid}"
| "task_token (Register_lookup username uuid now) = {uuid}"
| "task_token (Register_insert username uuid now) = {uuid}"
| "task_token t = {}"

fun arrival_token :: "action \<Rightarrow> string set" where
  "arrival_token (Arrive (Register req uuid now)) = {uuid}"
| "arrival_token a = {}"

definition pending :: "server \<Rightarrow> string set" where
  "pending s = (\<Union>t \<in> set (tasks s). task_token t)"

text \<open>
  A registration that has read a count below ten and has not yet inserted, and what
  holds of the server as long as registrations do not overlap: at most ten users, at
  most one registration in progress, and fewer than ten users while that registration
  is between its count and its insert.
\<close>

fun past_check :: "task \<Rightarrow> bool" where
  "past_check (Register_lookup username uuid now) = True"
| "past_check (Register_insert username uuid now) = True"
| "past_check t = False"

definition cap_invariant :: "server \<Rightarrow> bool" where
  "cap_invariant s =
     (length (users (db s)) \<le> 10
      \<and> (\<forall>i < length (tasks s). \<forall>j < length (tasks s).
            registering (tasks s ! i) \<and> registering (tasks s ! j) \<longrightarrow> i = j)
      \<and> (\<forall>i < length (tasks s). past_check (tasks s ! i) \<longrightarrow> length (users (db s)) < 10))"

text \<open>The next \<open>n\<close> statements of one request, applied with no other in between.\<close>

fun run_task :: "platform \<Rightarrow> nat \<Rightarrow> database \<Rightarrow> task \<Rightarrow> database \<times> task" where
  "run_task P 0 d t = (d, t)"
| "run_task P (Suc n) d t = (case step P d t of (d', t') \<Rightarrow> run_task P n d' t')"

text \<open>Reading a member of a JSON object that may be missing.\<close>

fun member_of :: "json option \<Rightarrow> string \<Rightarrow> json option" where
  "member_of (Some (JObj kvs)) k = map_of kvs k"
| "member_of v k = None"

section \<open>The earlier analyze server (the second document of db/database.js)\<close>

text \<open>
  The file db/database.js carries, after the database module, the text of an earlier
  stand-alone server with one handler for \<open>POST /api/analyze-coffee\<close>. It calls the
  service through the SDK (\<open>anthropic.messages.create\<close>, which throws when the call
  fails), and it answers an error with the message of what was thrown.
\<close>

text \<open>\<open>message.content.find((block) => block.type === 'text')\<close> on the elements of an array.\<close>

fun find_text_block :: "json list \<Rightarrow> exn + json option" where
  "find_text_block [] = Inr None"
| "find_text_block (block # rest) =
     try_bind (get_prop (Some block) ''type'') (\<lambda>type.
       if type = Some (JStr ''text'') then Inr (Some block) else find_text_block rest)"

text \<open>Only an array has the method \<open>find\<close>.\<close>

definition text_content :: "json \<Rightarrow> exn + json option" where
  "text_content message =
     try_bind (get_prop (Some message) ''content'') (\<lambda>content.
       case content of
         Some (JArr blocks) \<Rightarrow> find_text_block blocks
       | _ \<Rightarrow> Inl TypeError)"

text \<open>
  \<open>s.replace(/fence\s*/g, '')\<close> for a fence that is a fixed, non-empty text: every
  occurrence, found from the left, goes with the whitespace after it.
\<close>

function strip_fence :: "string \<Rightarrow> string \<Rightarrow> string" where
  "strip_fence fence [] = []"
| "strip_fence fence (c # cs) =
     (if fence \<noteq> [] \<and> take (length fence) (c # cs) = fence
      then strip_fence fence (dropWhile is_space (drop (length fence) (c # cs)))
      else c # strip_fence fence cs)"
  by pat_completeness auto
termination
proof (relation "measure (\<lambda>(fence, s). length s)")
  fix fence :: string and c :: char and cs :: string
  assume "fence \<noteq> [] \<and> take (length fence) (c # cs) = fence"
  then have "0 < length fence" by simp
  then have "length (drop (length fence) (c # cs)) < length (c # cs)" by simp
  moreover have "length (dropWhile is_space (drop (length fence) (c # cs)))
      \<le> length (drop (length fence) (c # cs))"
    by (rule length_dropWhile_le)
  ultimately show "((fence, dropWhile is_space (drop (length fence) (c # cs))), (fence, c # cs))
      \<in> measure (\<lambda>(fence, s). length s)"
    by simp
qed simp_all

text \<open>\<open>responseText.replace(/```json\s*/g, '').replace(/```\s*/g, '')\<close>.\<close>

definition strip_code_fences :: "string \<Rightarrow> string" where
  \<open>strip_code_fences responseText = strip_fence ''```'' (strip_fence ''```json'' responseText)\<close>

text \<open>\<open>error.message\<close>: of \<open>new Error(text)\<close> the text, of another error the engine's.\<close>

definition message_of :: "platform \<Rightarrow> exn \<Rightarrow> string" where
  "message_of P e = (case e of Error (JStr m) \<Rightarrow> m | _ \<Rightarrow> error_message P e)"

text \<open>From the message the SDK returned to the success response, or a throw.\<close>

definition legacy_reply :: "platform \<Rightarrow> json \<Rightarrow> exn + response" where
  "legacy_reply P message =
     try_bind (text_content message) (\<lambda>textContent.
       case textContent of
         None \<Rightarrow> Inl (Error (JStr ''No text response from Claude''))
       | Some block \<Rightarrow>
           try_bind (get_prop (Some block) ''text'') (\<lambda>text.
             case text of
               Some (JStr t) \<Rightarrow>
                 (case match_braces (strip_code_fences (trim t)) of
                    None \<Rightarrow> Inl (Error (JStr ''Invalid response format from Claude''))
                  | Some span \<Rightarrow>
                      (case JSON_parse P span of
                         None \<Rightarrow> Inl SyntaxError
                       | Some coffeeData \<Rightarrow>
                           try_bind (get_prop (Some coffeeData) ''name'') (\<lambda>name.
                             Inr (respond 200 [(''success'', JBool True), (''data'', coffeeData)]))))
             | _ \<Rightarrow> Inl TypeError))"

text \<open>
  The earlier handler. \<open>create\<close> is the SDK call on the image data and the media type
  (the model, the token limit and the instruction text are constants of the call).
\<close>

definition legacy_analyze_coffee :: "platform \<Rightarrow> (json \<Rightarrow> json \<Rightarrow> exn + json) \<Rightarrow> analyze_req \<Rightarrow> response" where
  "legacy_analyze_coffee P create req =
     (case req_imageData req of
        None \<Rightarrow> respond 400 [(''error'', JStr ''No image data provided'')]
      | Some imageData \<Rightarrow>
          if \<not> truthy imageData then respond 400 [(''error'', JStr ''No image data provided'')]
          else
            (case try_bind (create imageData (js_or (req_mediaType req) (JStr ''image/jpeg'')))
                    (legacy_reply P) of
               Inr response \<Rightarrow> response
             | Inl error \<Rightarrow>
                 respond 500 [(''success'', JBool False),
                              (''error'', js_or (Some (JStr (message_of P error)))
                                            (JStr ''Failed to analyze coffee image''))]))"

section \<open>Reference notions for the properties\<close>

text \<open>The seven fields of the coffee schema, in the order of the response.\<close>

definition schema_fields :: "string list" where
  "schema_fields =
     [''name'', ''origin'', ''process'', ''cultivar'', ''altitude'', ''roaster'', ''tastingNotes'']"

text \<open>
  The default of a schema field as the handler of server.js has it: \<open>washed\<close> for the
  process, \<open>1500\<close> for the altitude, \<open>No notes\<close> for the tasting notes and
  \<open>Unknown\<close> for the other four.
\<close>

definition field_default :: "string \<Rightarrow> string" where
  "field_default f =
     (if f = ''process'' then ''washed''
      else if f = ''altitude'' then ''1500''
      else if f = ''tastingNotes'' then ''No notes''
      else ''Unknown'')"

text \<open>
  The extraction with a fence-stripping step, in the words of the specification: the
  first text block of the reply, code fences stripped, the greedy brace span of the
  resulting text, parsed. The first three steps are those of the earlier server.
\<close>

definition fence_stripping_extraction :: "platform \<Rightarrow> json \<Rightarrow> json option" where
  "fence_stripping_extraction P data =
     (case text_content data of
        Inr (Some block) \<Rightarrow>
          (case get_prop (Some block) ''text'' of
             Inr (Some (JStr t)) \<Rightarrow>
               (case match_braces (strip_code_fences t) of
                  Some span \<Rightarrow> JSON_parse P span
                | None \<Rightarrow> None)
           | _ \<Rightarrow> None)
      | _ \<Rightarrow> None)"

text \<open>
  The rows that a save of the list \<open>cs\<close> for the user \<open>userId\<close> writes when the first
  free id is \<open>first\<close>: consecutive ids, the serialised elements, the clock readings.
\<close>

definition saved_rows :: "platform \<Rightarrow> (nat \<Rightarrow> nat) \<Rightarrow> nat \<Rightarrow> nat \<Rightarrow> json list \<Rightarrow> coffee_row list" where
  "saved_rows P clk first userId cs =
     map (\<lambda>i. \<lparr>c_id = first + i, c_user_id = userId,
               c_data = JSON_stringify P (cs ! i), c_created_at = clk i\<rparr>) [0..<length cs]"

text \<open>
  Rows with the values stored in them, as the list endpoint presents them: newest first
  (rows of the same second in the order given), each value merged with the id and the
  timestamp of its row.
\<close>

definition newest_first :: "(coffee_row \<times> json) list \<Rightarrow> json list" where
  "newest_first pairs =
     map (\<lambda>(row, v). merged_record row v) (sort_key (\<lambda>(row, v). - int (c_created_at row)) pairs)"

text \<open>The success response of a registration and the capacity response.\<close>

definition registered :: "nat \<Rightarrow> string \<Rightarrow> string \<Rightarrow> int \<Rightarrow> response" where
  "registered userId username token spots =
     respond 200 [(''success'', JBool True),
                  (''user'', JObj [(''id'', JNum (int userId)), (''username'', JStr username),
                                   (''token'', JStr token)]),
                  (''spotsRemaining'', JNum spots)]"

definition limit_reached :: response where
  "limit_reached =
     respond 403 [(''success'', JBool False), (''error'', JStr ''Tester limit reached (10/10)''),
                  (''spotsRemaining'', JNum 0)]"

definition username_taken :: response where
  "username_taken = respond 409 [(''success'', JBool False), (''error'', JStr ''Username already taken'')]"

text \<open>A registration request for a name, and a save request for a token and a list.\<close>

definition register_request :: "string \<Rightarrow> register_req" where
  "register_request username = \<lparr>req_username = Some (JStr username)\<rparr>"

definition save_request :: "string \<Rightarrow> json list \<Rightarrow> coffees_req" where
  "save_request token cs = \<lparr>req_token = Some token, req_coffees = Some (JArr cs)\<rparr>"

text \<open>The registration requests for a list of names with their tokens and seconds.\<close>

definition requests :: "(string \<times> string \<times> nat) list \<Rightarrow> (register_req \<times> string \<times> nat) list" where
  "requests regs = map (\<lambda>(name, uuid, now). (register_request name, uuid, now)) regs"

section \<open>Sample data\<close>

text \<open>
  A platform for the examples: \<open>JSON.stringify\<close> and \<open>JSON.parse\<close> as they are on
  the few values and texts the examples use.
\<close>

definition sample_stringify :: "json \<Rightarrow> string" where
  \<open>sample_stringify v =
     (if v = JObj [(''name'', JStr ''X'')] then ''{"name":"X"}''
      else if v = JObj [(''name'', JStr ''Y''), (''origin'', JStr ''Kenya'')]
        then ''{"name":"Y","origin":"Kenya"}''
      else if v = JObj [(''name'', JStr ''Z'')] then ''{"name":"Z"}''
      else if v = JObj [] then ''{}''
      else ''null'')\<close>

definition sample_parse :: "string \<Rightarrow> json option" where
  \<open>sample_parse s =
     (if s = ''{"name":"X"}'' then Some (JObj [(''name'', JStr ''X'')])
      else if s = ''{"name":"Y","origin":"Kenya"}''
        then Some (JObj [(''name'', JStr ''Y''), (''origin'', JStr ''Kenya'')])
      else if s = ''{"name":"Z"}'' then Some (JObj [(''name'', JStr ''Z'')])
      else if s = ''{"name":"A"}'' then Some (JObj [(''name'', JStr ''A'')])
      else if s = ''{}'' then Some (JObj [])
      else if s = ''null'' then Some JNull
      else None)\<close>

definition sample_platform :: platform where
  "sample_platform =
     \<lparr>JSON_stringify = sample_stringify, JSON_parse = sample_parse,
      ToNumber_gt0 = (\<lambda>v. Inr False), error_message = (\<lambda>e. ''error'')\<rparr>"

text \<open>The database after \<open>alice\<close> registered and saved one coffee.\<close>

definition alice_db :: database where
  "alice_db =
     fst (post_coffees sample_platform (\<lambda>i. 5)
            (fst (register empty_database ''T1'' 3 (register_request ''alice'')))
            (save_request ''T1'' [JObj [(''name'', JStr ''X'')]]))"

text \<open>Ten registrations, the first of them for \<open>Coffee\<close>: name, token and second.\<close>

definition ten_registrations :: "(string \<times> string \<times> nat) list" where
  "ten_registrations =
     [(''Coffee'', ''T0'', 0), (''bob'', ''T1'', 1), (''carol'', ''T2'', 2), (''dave'', ''T3'', 3),
      (''erin'', ''T4'', 4), (''frank'', ''T5'', 5), (''grace'', ''T6'', 6), (''heidi'', ''T7'', 7),
      (''ivan'', ''T8'', 8), (''judy'', ''T9'', 9)]"

definition full_db :: database where
  "full_db = fst (register_all empty_database (requests ten_registrations))"

text \<open>
  Two registrations for the same name, one after the other. And eleven registrations of
  which the last two overlap: after nine registrations in turn, \<open>judy\<close> and \<open>kate\<close>
  arrive together, and the database applies their statements alternately.
\<close>

definition alice_twice :: "action list" where
  "alice_twice = in_turn 0 (requests [(''alice'', ''T1'', 1), (''alice'', ''T2'', 2)])"

definition overlapping :: "action list" where
  "overlapping =
     in_turn 0 (requests (take 9 ten_registrations)) @
     [Arrive (Register (register_request ''judy'') ''T9'' 9),
      Arrive (Register (register_request ''kate'') ''T10'' 10),
      Resume 9, Resume 10, Resume 9, Resume 10, Resume 9, Resume 10, Resume 9, Resume 10]"

text \<open>
  Upstream replies: one whose text is an object in a code fence, one whose text has a
  fence inside the braces, one whose text is the empty object.
\<close>

definition reply_with_text :: "string \<Rightarrow> json" where
  "reply_with_text t = JObj [(''content'', JArr [JObj [(''type'', JStr ''text''), (''text'', JStr t)]])]"

definition fenced_text :: string where
  \<open>fenced_text = ''```json\<newline>{"name":"A"}\<newline>```''\<close>

definition fence_inside_text :: string where
  \<open>fence_inside_text = ''{```json\<newline>"name":"A"}''\<close>

definition image_request :: analyze_req where
  "image_request = \<lparr>req_imageData = Some (JStr ''aGVsbG8=''), req_mediaType = None\<rparr>"

text \<open>An external service that gives the same result to every request.\<close>

definition upstream :: "fetch_result \<Rightarrow> fetch_request \<Rightarrow> fetch_result" where
  "upstream result request = result"

text \<open>A database clock that stands at one second during a request.\<close>

definition at_second :: "nat \<Rightarrow> nat \<Rightarrow> nat" where
  "at_second s i = s"

text \<open>
  The id that the first insert of a save for the user \<open>userId\<close> gets: the next id of the
  table once the rows of the user are deleted.
\<close>

definition first_free :: "database \<Rightarrow> nat \<Rightarrow> nat" where
  "first_free d userId = next_id (coffees_seq d) (map c_id (coffees (deleteUserCoffees d userId)))"

text \<open>Sample coffees.\<close>

definition coffee_X :: json where
  "coffee_X = JObj [(''name'', JStr ''X'')]"

definition coffee_Y :: json where
  "coffee_Y = JObj [(''name'', JStr ''Y''), (''origin'', JStr ''Kenya'')]"

definition coffee_Z :: json where
  "coffee_Z = JObj [(''name'', JStr ''Z'')]"

section \<open>Properties of the AI extraction proxy\<close>

subsection \<open>The brace span\<close>

lemma match_braces_span:
  assumes "CHR ''{'' \<notin> set pre" and "CHR ''}'' \<notin> set post"
  shows "match_braces (pre @ [CHR ''{''] @ mid @ [CHR ''}''] @ post) = Some ([CHR ''{''] @ mid @ [CHR ''}''])"
proof -
  have a: "dropWhile (\<lambda>c. c \<noteq> CHR ''{'') (pre @ [CHR ''{''] @ mid @ [CHR ''}''] @ post)
      = CHR ''{'' # (mid @ [CHR ''}''] @ post)"
    using assms(1) by (auto simp: dropWhile_append3)
  have b: "dropWhile (\<lambda>c. c \<noteq> CHR ''}'') (rev (mid @ [CHR ''}''] @ post)) = CHR ''}'' # rev mid"
    using assms(2) by (auto simp: dropWhile_append3)
  show ?thesis
    unfolding match_braces_def a using b by simp
qed

lemma match_braces_Some:
  assumes "match_braces t = Some s"
  shows "\<exists>pre mid post. t = pre @ [CHR ''{''] @ mid @ [CHR ''}''] @ post"
proof -
  define pre where "pre = takeWhile (\<lambda>c. c \<noteq> CHR ''{'') t"
  obtain c rest where r: "dropWhile (\<lambda>c. c \<noteq> CHR ''{'') t = c # rest" and in_rest: "CHR ''}'' \<in> set rest"
    using assms by (auto simp: match_braces_def split: list.splits if_splits)
  have c: "c = CHR ''{''"
    using r hd_dropWhile[of "\<lambda>c. c \<noteq> CHR ''{''" "t"] by simp
  obtain mid post where "rest = mid @ CHR ''}'' # post"
    using in_rest by (auto simp: in_set_conv_decomp)
  then have "t = pre @ [CHR ''{''] @ mid @ [CHR ''}''] @ post"
    using r c takeWhile_dropWhile_id[of "\<lambda>c. c \<noteq> CHR ''{''" "t"] by (simp add: pre_def)
  then show ?thesis by blast
qed

lemma match_braces_None:
  assumes "match_braces text = None"
  shows "\<nexists>pre mid post. text = pre @ [CHR ''{''] @ mid @ [CHR ''}''] @ post"
proof
  assume "\<exists>pre mid post. text = pre @ [CHR ''{''] @ mid @ [CHR ''}''] @ post"
  then obtain pre mid post where t: "text = pre @ [CHR ''{''] @ mid @ [CHR ''}''] @ post" by blast
  define pre0 where "pre0 = takeWhile (\<lambda>c. c \<noteq> CHR ''{'') text"
  define rest0 where "rest0 = dropWhile (\<lambda>c. c \<noteq> CHR ''{'') text"
  have split: "text = pre0 @ rest0" by (simp add: pre0_def rest0_def)
  have "CHR ''{'' \<in> set text" using t by simp
  then have "rest0 \<noteq> []" by (auto simp: rest0_def dropWhile_eq_Nil_conv)
  then obtain c rest where r: "rest0 = c # rest" by (cases rest0) auto
  have c: "c = CHR ''{''"
    using r hd_dropWhile[of "\<lambda>c. c \<noteq> CHR ''{''" "text"] by (simp add: rest0_def)
  have nopre: "CHR ''{'' \<notin> set pre0"
    unfolding pre0_def by (auto dest: set_takeWhileD)
  have "pre0 @ CHR ''{'' # rest = pre @ CHR ''{'' # (mid @ [CHR ''}''] @ post)"
    using split r c t by simp
  then have "CHR ''}'' \<in> set rest"
    using nopre by (auto simp: append_eq_append_conv2 Cons_eq_append_conv append_eq_Cons_conv)
  then have "match_braces text \<noteq> None"
    using r c by (simp add: match_braces_def rest0_def[symmetric])
  with assms show False by simp
qed


subsection \<open>Code fences around the span\<close>

text \<open>
  Stripping the code fences of a text changes nothing between a brace and its partner
  when no backtick stands between them, and the span found afterwards is the same.
\<close>

lemma strip_fence_match:
  "fence \<noteq> [] \<Longrightarrow> take (length fence) (c # cs) = fence \<Longrightarrow>
     strip_fence fence (c # cs) =
       strip_fence fence (dropWhile is_space (drop (length fence) (c # cs)))"
  by simp

lemma strip_fence_skip:
  "\<not> (fence \<noteq> [] \<and> take (length fence) (c # cs) = fence) \<Longrightarrow>
     strip_fence fence (c # cs) = c # strip_fence fence cs"
  by auto

lemma strip_fence_set: "set (strip_fence fence s) \<subseteq> set s"
proof (induction fence s rule: strip_fence.induct)
  case (1 fence)
  then show ?case by simp
next
  case (2 fence c cs)
  show ?case
  proof (cases "fence \<noteq> [] \<and> take (length fence) (c # cs) = fence")
    case True
    have "set (dropWhile is_space (drop (length fence) (c # cs))) \<subseteq> set (c # cs)"
      by (meson set_drop_subset set_dropWhileD subsetI subset_trans)
    moreover have "strip_fence fence (c # cs) =
        strip_fence fence (dropWhile is_space (drop (length fence) (c # cs)))"
      using True by (intro strip_fence_match) simp_all
    ultimately show ?thesis
      using 2(1)[OF True] by auto
  next
    case False
    with 2(2)[OF False] show ?thesis
      by (auto simp only: strip_fence_skip[OF False] list.set)
  qed
qed

lemma strip_fence_no_start:
  assumes "fence \<noteq> []" and "hd fence \<notin> set s"
  shows "strip_fence fence s = s"
  using assms
proof (induction s)
  case Nil
  then show ?case by simp
next
  case (Cons c cs)
  have "take (length fence) (c # cs) \<noteq> fence"
  proof
    assume "take (length fence) (c # cs) = fence"
    then have "hd fence = c"
      using Cons.prems(1) by (cases fence) auto
    with Cons.prems(2) show False by simp
  qed
  with Cons show ?case by simp
qed

lemma dropWhile_before:
  "\<not> p c \<Longrightarrow> dropWhile p (xs @ c # ys) = dropWhile p xs @ c # ys"
  by (induction xs) auto

lemma strip_fence_split:
  assumes "c \<notin> set fence" and "\<not> is_space c"
  shows "strip_fence fence (xs @ c # ys) = strip_fence fence xs @ c # strip_fence fence ys"
  using assms
proof (induction fence xs rule: strip_fence.induct)
  case (1 fence)
  have "\<not> (fence \<noteq> [] \<and> take (length fence) (c # ys) = fence)"
  proof
    assume a: "fence \<noteq> [] \<and> take (length fence) (c # ys) = fence"
    then have "hd fence = c" by (cases fence) auto
    then have "c \<in> set fence" using a by (cases fence) auto
    with 1(1) show False by simp
  qed
  then have "strip_fence fence (c # ys) = c # strip_fence fence ys"
    by (rule strip_fence_skip)
  then show ?case by simp
next
  case (2 fence x xs)
  note notin = 2(3) and nospace = 2(4)
  show ?case
  proof (cases "fence \<noteq> [] \<and> take (length fence) (x # xs) = fence")
    case True
    then have "length (take (length fence) (x # xs)) = length fence"
      by simp
    then have len: "length fence \<le> length (x # xs)"
      by (simp del: take_Suc_Cons length_Cons add: min_def split: if_splits)
    have "take (length fence) ((x # xs) @ c # ys) =
        take (length fence) (x # xs) @ take (length fence - length (x # xs)) (c # ys)"
      by (rule take_append)
    then have m: "take (length fence) ((x # xs) @ c # ys) = fence"
      using True len by (simp del: take_Suc_Cons)
    have "strip_fence fence ((x # xs) @ c # ys) =
        strip_fence fence (dropWhile is_space (drop (length fence) ((x # xs) @ c # ys)))"
      using True m strip_fence_match[of fence x "xs @ c # ys"] by simp
    also have "drop (length fence) ((x # xs) @ c # ys) = drop (length fence) (x # xs) @ c # ys"
      using len drop_append[of "length fence" "x # xs" "c # ys"] by (simp del: drop_Suc_Cons)
    also have "dropWhile is_space (drop (length fence) (x # xs) @ c # ys) =
        dropWhile is_space (drop (length fence) (x # xs)) @ c # ys"
      using nospace by (rule dropWhile_before)
    also have "strip_fence fence (dropWhile is_space (drop (length fence) (x # xs)) @ c # ys) =
        strip_fence fence (dropWhile is_space (drop (length fence) (x # xs))) @ c # strip_fence fence ys"
      using 2(1)[OF True notin nospace] .
    also have "strip_fence fence (dropWhile is_space (drop (length fence) (x # xs))) =
        strip_fence fence (x # xs)"
      using True strip_fence_match[of fence x xs] by simp
    finally show ?thesis .
  next
    case False
    have "\<not> (fence \<noteq> [] \<and> take (length fence) (x # xs @ c # ys) = fence)"
    proof
      assume a: "fence \<noteq> [] \<and> take (length fence) (x # xs @ c # ys) = fence"
      show False
      proof (cases "length fence \<le> length (x # xs)")
        case True
        then have "take (length fence) (x # xs) = take (length fence) ((x # xs) @ c # ys)"
          using take_append[of "length fence" "x # xs" "c # ys"] by (simp del: take_Suc_Cons)
        with a False show False by simp
      next
        case False
        then obtain n where n: "length fence = Suc (length (x # xs)) + n"
          by (metis add_Suc less_iff_Suc_add not_le)
        have "take (length fence) ((x # xs) @ c # ys) = (x # xs) @ c # take n ys"
          unfolding n by simp
        then have "c \<in> set fence"
          using a by (metis append_Cons in_set_conv_decomp)
        with notin show False by simp
      qed
    qed
    then have "strip_fence fence ((x # xs) @ c # ys) = x # strip_fence fence (xs @ c # ys)"
      using strip_fence_skip[of fence x "xs @ c # ys"] by simp
    also have "\<dots> = x # (strip_fence fence xs @ c # strip_fence fence ys)"
      using 2(2)[OF False notin nospace] by simp
    also have "\<dots> = strip_fence fence (x # xs) @ c # strip_fence fence ys"
      using strip_fence_skip[OF False] by simp
    finally show ?thesis .
  qed
qed


lemma strip_fence_around_span:
  assumes "fence \<noteq> []" and "hd fence = CHR 0x60"
    and "CHR ''{'' \<notin> set fence" and "CHR ''}'' \<notin> set fence"
    and "CHR 0x60 \<notin> set mid"
  shows "strip_fence fence (pre @ [CHR ''{''] @ mid @ [CHR ''}''] @ post) =
           strip_fence fence pre @ [CHR ''{''] @ mid @ [CHR ''}''] @ strip_fence fence post"
proof -
  have sp: "\<not> is_space CHR ''{''" "\<not> is_space CHR ''}''"
    by (simp_all add: is_space_def)
  have "strip_fence fence (pre @ CHR ''{'' # (mid @ CHR ''}'' # post)) =
      strip_fence fence pre @ CHR ''{'' # strip_fence fence (mid @ CHR ''}'' # post)"
    using assms(3) sp(1) by (rule strip_fence_split)
  also have "strip_fence fence (mid @ CHR ''}'' # post) =
      strip_fence fence mid @ CHR ''}'' # strip_fence fence post"
    using assms(4) sp(2) by (rule strip_fence_split)
  also have "strip_fence fence mid = mid"
    using assms(1,2,5) by (simp add: strip_fence_no_start)
  finally show ?thesis by simp
qed

lemma strip_keeps_span:
  assumes "CHR ''{'' \<notin> set pre" and "CHR ''}'' \<notin> set post" and "CHR 0x60 \<notin> set mid"
  shows "match_braces (strip_code_fences (pre @ [CHR ''{''] @ mid @ [CHR ''}''] @ post)) =
           Some ([CHR ''{''] @ mid @ [CHR ''}''])"
proof -
  let ?json = "[CHR 0x60, CHR 0x60, CHR 0x60, CHR ''j'', CHR ''s'', CHR ''o'', CHR ''n'']"
  let ?plain = "[CHR 0x60, CHR 0x60, CHR 0x60]"
  have "strip_code_fences (pre @ [CHR ''{''] @ mid @ [CHR ''}''] @ post) =
      strip_fence ?plain (strip_fence ?json (pre @ [CHR ''{''] @ mid @ [CHR ''}''] @ post))"
    by (simp add: strip_code_fences_def)
  also have "strip_fence ?json (pre @ [CHR ''{''] @ mid @ [CHR ''}''] @ post) =
      strip_fence ?json pre @ [CHR ''{''] @ mid @ [CHR ''}''] @ strip_fence ?json post"
    using assms(3) by (intro strip_fence_around_span) simp_all
  also have "strip_fence ?plain (strip_fence ?json pre @ [CHR ''{''] @ mid @ [CHR ''}''] @ strip_fence ?json post) =
      strip_fence ?plain (strip_fence ?json pre) @ [CHR ''{''] @ mid @ [CHR ''}'']
        @ strip_fence ?plain (strip_fence ?json post)"
    using assms(3) by (intro strip_fence_around_span) simp_all
  finally have eq: "strip_code_fences (pre @ [CHR ''{''] @ mid @ [CHR ''}''] @ post) =
      strip_fence ?plain (strip_fence ?json pre) @ [CHR ''{''] @ mid @ [CHR ''}'']
        @ strip_fence ?plain (strip_fence ?json post)" .
  have "CHR ''{'' \<notin> set (strip_fence ?plain (strip_fence ?json pre))"
    using assms(1) strip_fence_set by blast
  moreover have "CHR ''}'' \<notin> set (strip_fence ?plain (strip_fence ?json post))"
    using assms(2) strip_fence_set by blast
  ultimately show ?thesis
    unfolding eq by (rule match_braces_span)
qed

text \<open>When the first content block is a text block, it is the first text block.\<close>

lemma first_block_text:
  assumes "get_prop (Some data) ''content'' = Inr (Some (JArr (block # rest)))"
    and "get_prop (Some block) ''type'' = Inr (Some (JStr ''text''))"
  shows "text_content data = Inr (Some block)"
    and "first_content_text data = get_prop (Some block) ''text''"
  using assms by (simp_all add: text_content_def first_content_text_def try_bind_def)

subsection \<open>Rejections and upstream failures\<close>

lemma analyze_coffee_fetched:
  assumes "req_imageData req = Some imageData" and "truthy imageData"
  shows "sent (analyze_coffee P api_key now fetch req) =
     (case analyze_reply P now (fetch (anthropic_request api_key imageData (req_mediaType req))) of
        Inr response \<Rightarrow> response
      | Inl error \<Rightarrow> analysis_failed)"
  using assms by (simp add: analyze_coffee_def Let_def split: sum.splits)

lemma analyze_reply_not_ok:
  "\<exists>e. analyze_reply P now (Responded False body) = Inl e"
  by (cases body) (auto simp: analyze_reply_def try_bind_def split: sum.splits)

text \<open>
  Claim C6. An analyze request whose \<open>imageData\<close> member is absent is answered with
  status 400 and the message \<open>Image data required\<close>; no request goes to the external
  service, nothing is logged and the database is as before. In the server with requests
  in progress the request is answered as it arrives: it waits for nothing, and the
  database and the other requests are as before.
\<close>

theorem analyze_without_image:
  "analyze_coffee P api_key now fetch (req\<lparr>req_imageData := None\<rparr>) =
     \<lparr>sent = respond 400 [(''success'', JBool False), (''error'', JStr ''Image data required'')],
      fetched = [], logged = []\<rparr>
   \<and> serve P d (AnalyzeCoffee (req\<lparr>req_imageData := None\<rparr>)) = d
   \<and> act P s (Arrive (AnalyzeCoffee (req\<lparr>req_imageData := None\<rparr>))) =
       s\<lparr>tasks := tasks s @
           [Done (respond 400 [(''success'', JBool False), (''error'', JStr ''Image data required'')])]\<rparr>"
  by (simp add: analyze_coffee_def)

text \<open>
  Claim C9. When the external service answers with a non-success response, whatever its
  body, the handler of server.js answers with status 500 and the fixed message
  \<open>Analysis failed. Please try again.\<close>: two upstream failures give the same response.
\<close>

theorem upstream_failure_generic:
  assumes "req_imageData req = Some imageData" and "truthy imageData"
    and "fetch (anthropic_request api_key imageData (req_mediaType req)) = Responded False body"
    and "fetch' (anthropic_request api_key imageData (req_mediaType req)) = Responded False body'"
  shows "sent (analyze_coffee P api_key now fetch req) =
           respond 500 [(''success'', JBool False), (''error'', JStr ''Analysis failed. Please try again.'')]
       \<and> sent (analyze_coffee P api_key now fetch' req) = sent (analyze_coffee P api_key now fetch req)"
proof -
  obtain e where e: "analyze_reply P now (Responded False body) = Inl e"
    using analyze_reply_not_ok by blast
  obtain e' where e': "analyze_reply P now (Responded False body') = Inl e'"
    using analyze_reply_not_ok by blast
  have "sent (analyze_coffee P api_key now fetch req) = analysis_failed"
    using assms(1-3) e by (simp add: analyze_coffee_fetched)
  moreover have "sent (analyze_coffee P api_key now fetch' req) = analysis_failed"
    using assms(1,2,4) e' by (simp add: analyze_coffee_fetched)
  ultimately show ?thesis by (simp add: analysis_failed_def)
qed

text \<open>The upstream message goes to the log only.\<close>

lemma upstream_failure_logged:
  assumes "req_imageData req = Some imageData" and "truthy imageData" and "m \<noteq> []"
    and "fetch (anthropic_request api_key imageData (req_mediaType req)) =
           Responded False (Some (JObj [(''error'', JObj [(''message'', JStr m)])]))"
  shows "logged (analyze_coffee P api_key now fetch req) = [Error (JStr m)]"
  using assms
  by (simp add: analyze_coffee_def Let_def analyze_reply_def api_error_message_def try_bind_def js_or_def)

text \<open>Witness for C9: an upstream error object and an upstream body that is no JSON.\<close>

theorem upstream_failure_generic_witness:
  "sent (analyze_coffee sample_platform ''key'' ''2026-01-01T00:00:00.000Z''
           (upstream (Responded False (Some (JObj [(''error'', JObj [(''message'', JStr ''Overloaded'')])]))))
           image_request) =
     respond 500 [(''success'', JBool False), (''error'', JStr ''Analysis failed. Please try again.'')]
   \<and> sent (analyze_coffee sample_platform ''key'' ''2026-01-01T00:00:00.000Z''
           (upstream (Responded False None)) image_request) =
       sent (analyze_coffee sample_platform ''key'' ''2026-01-01T00:00:00.000Z''
           (upstream (Responded False (Some (JObj [(''error'', JObj [(''message'', JStr ''Overloaded'')])]))))
           image_request)"
  by (rule upstream_failure_generic [where imageData = "JStr ''aGVsbG8=''"])
     (simp_all add: image_request_def upstream_def)

subsection \<open>Defaults\<close>

lemma coffee_data_object:
  "coffee_data (JObj kvs) now =
     Inr (JObj (map (\<lambda>f. (f, js_or (map_of kvs f) (JStr (field_default f)))) schema_fields
                @ [(''addedDate'', JStr now)]))"
  by (simp add: coffee_data_def try_bind_def schema_fields_def field_default_def)

text \<open>
  Claim C8, as amended. For every JSON object parsed from the reply, each of the seven
  schema fields that is missing or falsy in it is replaced by its default (\<open>washed\<close>
  for the process, \<open>1500\<close> for the altitude, \<open>No notes\<close> for the tasting notes,
  \<open>Unknown\<close> for the other four), and the data object returned carries the current
  timestamp in the member \<open>addedDate\<close>.
\<close>

theorem analyze_field_defaults:
  assumes "req_imageData req = Some imageData" and "truthy imageData"
    and "fetch (anthropic_request api_key imageData (req_mediaType req)) = Responded True (Some data)"
    and "first_content_text data = Inr (Some (JStr t))"
    and "match_braces t = Some span"
    and "JSON_parse P span = Some (JObj kvs)"
  shows "sent (analyze_coffee P api_key now fetch req) =
     respond 200
       [(''success'', JBool True),
        (''data'', JObj (map (\<lambda>f. (f, js_or (map_of kvs f) (JStr (field_default f)))) schema_fields
                         @ [(''addedDate'', JStr now)]))]"
  using assms
  by (simp add: analyze_coffee_fetched analyze_reply_def try_bind_def coffee_data_object)


text \<open>Facts about the sample replies.\<close>

lemma sample_reply_text:
  "first_content_text (reply_with_text t) = Inr (Some (JStr t))"
  by (simp add: first_content_text_def reply_with_text_def try_bind_def)

lemma fenced_text_span: \<open>match_braces fenced_text = Some ''{"name":"A"}''\<close>
  by (simp add: match_braces_def fenced_text_def)

text \<open>Witness for C8: a reply that names the coffee only.\<close>

theorem analyze_field_defaults_witness:
  "sent (analyze_coffee sample_platform ''key'' ''2026-01-01T00:00:00.000Z''
           (upstream (Responded True (Some (reply_with_text fenced_text)))) image_request) =
     respond 200
       [(''success'', JBool True),
        (''data'', JObj [(''name'', JStr ''A''), (''origin'', JStr ''Unknown''),
                         (''process'', JStr ''washed''), (''cultivar'', JStr ''Unknown''),
                         (''altitude'', JStr ''1500''), (''roaster'', JStr ''Unknown''),
                         (''tastingNotes'', JStr ''No notes''),
                         (''addedDate'', JStr ''2026-01-01T00:00:00.000Z'')])]"
  using analyze_field_defaults [where req = image_request and imageData = "JStr ''aGVsbG8=''"
      and fetch = "upstream (Responded True (Some (reply_with_text fenced_text)))"
      and api_key = "''key''" and data = "reply_with_text fenced_text" and t = fenced_text
      and P = sample_platform and kvs = "[(''name'', JStr ''A'')]"
      and now = "''2026-01-01T00:00:00.000Z''", OF _ _ _ sample_reply_text fenced_text_span]
  by (simp add: image_request_def upstream_def sample_platform_def sample_parse_def
      schema_fields_def field_default_def js_or_def)

text \<open>
  Counterexample to C8 as stated: for the empty object the tasting notes do not default
  to \<open>Unknown\<close>, and the data object has no member \<open>added\<close>.
\<close>

theorem analyze_defaults_counterexample:
  "member_of (member_of (Some (json_body (sent (analyze_coffee sample_platform ''key''
       ''2026-01-01T00:00:00.000Z'' (upstream (Responded True (Some (reply_with_text ''{}''))))
       image_request)))) ''data'') ''tastingNotes'' \<noteq> Some (JStr ''Unknown'')
   \<and> member_of (member_of (Some (json_body (sent (analyze_coffee sample_platform ''key''
       ''2026-01-01T00:00:00.000Z'' (upstream (Responded True (Some (reply_with_text ''{}''))))
       image_request)))) ''data'') ''added'' = None"
  by (simp add: analyze_coffee_def image_request_def upstream_def Let_def analyze_reply_def
      try_bind_def sample_reply_text match_braces_def sample_platform_def sample_parse_def
      coffee_data_def js_or_def respond_def anthropic_request_def)

subsection \<open>Extraction\<close>

text \<open>
  Claim C7, as amended. On a successful upstream reply the handler of server.js takes the
  text of the first content block as it is (it has no step that strips code fences),
  takes the span from the first opening brace to the last closing brace and parses it as
  JSON. When the block has no text, when the text has no such span, when the span does
  not parse or the parsed value is \<open>null\<close>, the request fails with status 500 and the
  fixed message. A code fence around the span is left out with everything else outside
  the braces: the span is the one found after stripping the fences whenever no backtick
  stands inside it.
\<close>

theorem analyze_extraction:
  assumes "req_imageData req = Some imageData" and "truthy imageData"
    and "fetch (anthropic_request api_key imageData (req_mediaType req)) = Responded True (Some data)"
  shows "(\<forall>t pre mid post.
            first_content_text data = Inr (Some (JStr t)) \<and>
            t = pre @ [CHR ''{''] @ mid @ [CHR ''}''] @ post \<and>
            CHR ''{'' \<notin> set pre \<and> CHR ''}'' \<notin> set post \<longrightarrow>
            sent (analyze_coffee P api_key now fetch req) =
              (case JSON_parse P ([CHR ''{''] @ mid @ [CHR ''}'']) of
                 None \<Rightarrow> analysis_failed
               | Some coffeeData \<Rightarrow>
                   (case coffee_data coffeeData now of
                      Inl e \<Rightarrow> analysis_failed
                    | Inr d \<Rightarrow> respond 200 [(''success'', JBool True), (''data'', d)])))
       \<and> (\<forall>t. first_content_text data = Inr (Some (JStr t)) \<and>
                (\<nexists>pre mid post. t = pre @ [CHR ''{''] @ mid @ [CHR ''}''] @ post) \<longrightarrow>
              sent (analyze_coffee P api_key now fetch req) = analysis_failed)
       \<and> ((\<nexists>t. first_content_text data = Inr (Some (JStr t))) \<longrightarrow>
              sent (analyze_coffee P api_key now fetch req) = analysis_failed)
       \<and> (\<forall>t pre mid post.
              t = pre @ [CHR ''{''] @ mid @ [CHR ''}''] @ post \<and>
              CHR ''{'' \<notin> set pre \<and> CHR ''}'' \<notin> set post \<and> CHR 0x60 \<notin> set mid \<longrightarrow>
              match_braces (strip_code_fences t) = match_braces t)"
proof (intro conjI allI impI)
  fix t pre mid post
  assume h: "first_content_text data = Inr (Some (JStr t)) \<and>
            t = pre @ [CHR ''{''] @ mid @ [CHR ''}''] @ post \<and>
            CHR ''{'' \<notin> set pre \<and> CHR ''}'' \<notin> set post"
  then have "match_braces t = Some ([CHR ''{''] @ mid @ [CHR ''}''])"
    using match_braces_span by blast
  with h assms show "sent (analyze_coffee P api_key now fetch req) =
              (case JSON_parse P ([CHR ''{''] @ mid @ [CHR ''}'']) of
                 None \<Rightarrow> analysis_failed
               | Some coffeeData \<Rightarrow>
                   (case coffee_data coffeeData now of
                      Inl e \<Rightarrow> analysis_failed
                    | Inr d \<Rightarrow> respond 200 [(''success'', JBool True), (''data'', d)]))"
    by (simp add: analyze_coffee_fetched analyze_reply_def try_bind_def
        split: option.splits sum.splits)
next
  fix t
  assume h: "first_content_text data = Inr (Some (JStr t)) \<and>
                (\<nexists>pre mid post. t = pre @ [CHR ''{''] @ mid @ [CHR ''}''] @ post)"
  have "match_braces t = None"
  proof (cases "match_braces t")
    case None
    then show ?thesis .
  next
    case (Some s)
    then have "\<exists>pre mid post. t = pre @ [CHR ''{''] @ mid @ [CHR ''}''] @ post"
      by (rule match_braces_Some)
    with h show ?thesis by blast
  qed
  with h assms show "sent (analyze_coffee P api_key now fetch req) = analysis_failed"
    by (simp add: analyze_coffee_fetched analyze_reply_def try_bind_def)
next
  assume h: "\<nexists>t. first_content_text data = Inr (Some (JStr t))"
  have "\<exists>e. try_bind (first_content_text data) (\<lambda>t. try_bind (text_match t) f) = Inl e" for f :: "string option \<Rightarrow> exn + response"
  proof (cases "first_content_text data")
    case (Inl e)
    then show ?thesis by (simp add: try_bind_def)
  next
    case (Inr v)
    with h have "text_match v = Inl TypeError"
      by (cases v rule: text_match.cases) auto
    with Inr show ?thesis by (simp add: try_bind_def)
  qed
  then have "\<exists>e. analyze_reply P now (Responded True (Some data)) = Inl e"
    by (simp add: analyze_reply_def)
  with assms show "sent (analyze_coffee P api_key now fetch req) = analysis_failed"
    by (auto simp: analyze_coffee_fetched)
next
  fix t pre mid post
  assume "t = pre @ [CHR ''{''] @ mid @ [CHR ''}''] @ post \<and>
              CHR ''{'' \<notin> set pre \<and> CHR ''}'' \<notin> set post \<and> CHR 0x60 \<notin> set mid"
  then show "match_braces (strip_code_fences t) = match_braces t"
    using strip_keeps_span[of pre post mid] match_braces_span[of pre post mid] by simp
qed


text \<open>
  Witness for C7: an object in a code fence, a text without braces, a reply without
  content blocks.
\<close>

theorem analyze_extraction_witness:
  "sent (analyze_coffee sample_platform ''key'' ''2026-01-01T00:00:00.000Z''
           (upstream (Responded True (Some (reply_with_text fenced_text)))) image_request) =
     respond 200
       [(''success'', JBool True),
        (''data'', JObj [(''name'', JStr ''A''), (''origin'', JStr ''Unknown''),
                         (''process'', JStr ''washed''), (''cultivar'', JStr ''Unknown''),
                         (''altitude'', JStr ''1500''), (''roaster'', JStr ''Unknown''),
                         (''tastingNotes'', JStr ''No notes''),
                         (''addedDate'', JStr ''2026-01-01T00:00:00.000Z'')])]
   \<and> sent (analyze_coffee sample_platform ''key'' ''2026-01-01T00:00:00.000Z''
           (upstream (Responded True (Some (reply_with_text ''no label found''))))
           image_request) = analysis_failed
   \<and> sent (analyze_coffee sample_platform ''key'' ''2026-01-01T00:00:00.000Z''
           (upstream (Responded True (Some (JObj [(''content'', JArr [])]))))
           image_request) = analysis_failed
   \<and> match_braces (strip_code_fences fenced_text) = match_braces fenced_text"
proof (intro conjI)
  let ?now = "''2026-01-01T00:00:00.000Z''"
  have img: "req_imageData image_request = Some (JStr ''aGVsbG8='')" "truthy (JStr ''aGVsbG8='')"
    by (simp_all add: image_request_def)
  have fenced: \<open>fenced_text = ''```json\<newline>'' @ [CHR ''{''] @ ''"name":"A"'' @ [CHR ''}''] @ ''\<newline>```''\<close>
    by (simp add: fenced_text_def)
  have \<open>sent (analyze_coffee sample_platform ''key'' ?now
           (upstream (Responded True (Some (reply_with_text fenced_text)))) image_request) =
        (case JSON_parse sample_platform ([CHR ''{''] @ ''"name":"A"'' @ [CHR ''}'']) of
                 None \<Rightarrow> analysis_failed
               | Some coffeeData \<Rightarrow>
                   (case coffee_data coffeeData ?now of
                      Inl e \<Rightarrow> analysis_failed
                    | Inr d \<Rightarrow> respond 200 [(''success'', JBool True), (''data'', d)]))\<close>
    using analyze_extraction [where P = sample_platform and now = ?now, OF img, THEN conjunct1,
        rule_format, of "upstream (Responded True (Some (reply_with_text fenced_text)))" "''key''"
        "reply_with_text fenced_text" fenced_text \<open>''```json\<newline>''\<close> \<open>''"name":"A"''\<close> \<open>''\<newline>```''\<close>]
    by (simp add: upstream_def sample_reply_text fenced)
  then show "sent (analyze_coffee sample_platform ''key'' ?now
           (upstream (Responded True (Some (reply_with_text fenced_text)))) image_request) =
     respond 200
       [(''success'', JBool True),
        (''data'', JObj [(''name'', JStr ''A''), (''origin'', JStr ''Unknown''),
                         (''process'', JStr ''washed''), (''cultivar'', JStr ''Unknown''),
                         (''altitude'', JStr ''1500''), (''roaster'', JStr ''Unknown''),
                         (''tastingNotes'', JStr ''No notes''),
                         (''addedDate'', JStr ?now)])]"
    by (simp add: sample_platform_def sample_parse_def coffee_data_def try_bind_def js_or_def)
  have "\<nexists>pre mid post. ''no label found'' = pre @ [CHR ''{''] @ mid @ [CHR ''}''] @ post"
  proof
    assume "\<exists>pre mid post. ''no label found'' = pre @ [CHR ''{''] @ mid @ [CHR ''}''] @ post"
    then obtain pre mid post where "''no label found'' = pre @ [CHR ''{''] @ mid @ [CHR ''}''] @ post"
      by blast
    then have "CHR ''{'' \<in> set ''no label found''"
      by (metis append_Cons in_set_conv_decomp)
    then show False by simp
  qed
  then show "sent (analyze_coffee sample_platform ''key'' ?now
           (upstream (Responded True (Some (reply_with_text ''no label found''))))
           image_request) = analysis_failed"
    using analyze_extraction [where P = sample_platform and now = ?now, OF img, THEN conjunct2,
        THEN conjunct1, rule_format,
        of "upstream (Responded True (Some (reply_with_text ''no label found'')))" "''key''"
        "reply_with_text ''no label found''" "''no label found''"]
    by (simp add: upstream_def sample_reply_text)
  have "\<nexists>t. first_content_text (JObj [(''content'', JArr [])]) = Inr (Some (JStr t))"
    by (simp add: first_content_text_def try_bind_def)
  then show "sent (analyze_coffee sample_platform ''key'' ?now
           (upstream (Responded True (Some (JObj [(''content'', JArr [])]))))
           image_request) = analysis_failed"
    using analyze_extraction [where P = sample_platform and now = ?now, OF img, THEN conjunct2,
        THEN conjunct2, THEN conjunct1, rule_format,
        of "upstream (Responded True (Some (JObj [(''content'', JArr [])])))" "''key''"
        "JObj [(''content'', JArr [])]"]
    by (simp add: upstream_def)
  show "match_braces (strip_code_fences fenced_text) = match_braces fenced_text"
    using analyze_extraction [where P = sample_platform and now = ?now, OF img, THEN conjunct2,
        THEN conjunct2, THEN conjunct2, rule_format,
        of "upstream (Responded True (Some (reply_with_text fenced_text)))" "''key''"
        "reply_with_text fenced_text" fenced_text \<open>''```json\<newline>''\<close> \<open>''"name":"A"''\<close> \<open>''\<newline>```''\<close>]
    by (simp add: upstream_def fenced)
qed

text \<open>
  Counterexample to C7 as stated: for a text with a fence inside the braces, stripping
  the fences first gives a span that parses, while the handler parses the text as it is
  and fails.
\<close>

theorem analyze_fence_counterexample:
  "fence_stripping_extraction sample_platform (reply_with_text fence_inside_text) =
     Some (JObj [(''name'', JStr ''A'')])
   \<and> sent (analyze_coffee sample_platform ''key'' ''2026-01-01T00:00:00.000Z''
           (upstream (Responded True (Some (reply_with_text fence_inside_text)))) image_request) =
       respond 500 [(''success'', JBool False), (''error'', JStr ''Analysis failed. Please try again.'')]"
proof
  have \<open>strip_fence ''```json'' fence_inside_text = ''{"name":"A"}''\<close>
    by (simp add: fence_inside_text_def is_space_def)
  moreover have \<open>strip_fence ''```'' ''{"name":"A"}'' = ''{"name":"A"}''\<close>
    by simp
  ultimately have \<open>strip_code_fences fence_inside_text = ''{"name":"A"}''\<close>
    by (simp add: strip_code_fences_def)
  then show "fence_stripping_extraction sample_platform (reply_with_text fence_inside_text) =
     Some (JObj [(''name'', JStr ''A'')])"
    by (simp add: fence_stripping_extraction_def text_content_def reply_with_text_def try_bind_def
        match_braces_def sample_platform_def sample_parse_def)
  have "match_braces fence_inside_text = Some fence_inside_text"
    by (simp add: match_braces_def fence_inside_text_def)
  moreover have "sample_parse fence_inside_text = None"
    by (simp add: sample_parse_def fence_inside_text_def)
  ultimately show "sent (analyze_coffee sample_platform ''key'' ''2026-01-01T00:00:00.000Z''
           (upstream (Responded True (Some (reply_with_text fence_inside_text)))) image_request) =
       respond 500 [(''success'', JBool False), (''error'', JStr ''Analysis failed. Please try again.'')]"
    by (simp add: analyze_coffee_def image_request_def upstream_def Let_def analyze_reply_def
        try_bind_def sample_reply_text sample_platform_def analysis_failed_def)
qed

text \<open>
  The earlier server, for comparison: it answers a failed call with the message of the
  error thrown.
\<close>

lemma legacy_echoes_upstream_message:
  assumes "req_imageData req = Some imageData" and "truthy imageData" and "m \<noteq> []"
    and "create imageData (js_or (req_mediaType req) (JStr ''image/jpeg'')) = Inl (Error (JStr m))"
  shows "legacy_analyze_coffee P create req =
           respond 500 [(''success'', JBool False), (''error'', JStr m)]"
  using assms by (simp add: legacy_analyze_coffee_def try_bind_def message_of_def js_or_def)

section \<open>Properties of the coffee list endpoints\<close>

subsection \<open>Ids and rows\<close>

lemma foldr_max_base: "foldr max ids a = max a (foldr max ids (0::nat))"
  by (induction ids) auto

lemma foldr_max_ge: "i \<in> set ids \<Longrightarrow> i \<le> foldr max ids (a::nat)"
  by (induction ids) auto

lemma next_id_fresh: "i \<in> set ids \<Longrightarrow> i < next_id seq ids"
  by (simp add: next_id_def foldr_max_ge less_Suc_eq_le)

lemma next_id_step: "next_id (next_id seq ids) (ids @ [next_id seq ids]) = Suc (next_id seq ids)"
proof -
  have "foldr max ids (Suc (foldr max ids seq)) = Suc (foldr max ids seq)"
    using foldr_max_base[of ids "Suc (foldr max ids seq)"] foldr_max_base[of ids seq] by simp
  then show ?thesis by (simp add: next_id_def)
qed

lemma saveCoffee_users [simp]: "users (saveCoffee d userId data now) = users d"
  by (simp add: saveCoffee_def Let_def)

lemma insert_all_users [simp]: "users (insert_all P clk i userId cs d) = users d"
  by (induction cs arbitrary: i d) simp_all

lemma insert_all_coffees:
  "coffees (insert_all P clk i userId cs d) =
     coffees d @ map (\<lambda>j. \<lparr>c_id = next_id (coffees_seq d) (map c_id (coffees d)) + j,
                            c_user_id = userId, c_data = JSON_stringify P (cs ! j),
                            c_created_at = clk (i + j)\<rparr>) [0..<length cs]"
proof (induction cs arbitrary: i d)
  case Nil
  then show ?case by simp
next
  case (Cons c cs)
  let ?first = "next_id (coffees_seq d) (map c_id (coffees d))"
  let ?d = "saveCoffee d userId (JSON_stringify P c) (clk i)"
  have seq: "coffees_seq ?d = ?first"
    by (simp add: saveCoffee_def Let_def)
  have cof: "coffees ?d = coffees d @ [\<lparr>c_id = ?first, c_user_id = userId,
      c_data = JSON_stringify P c, c_created_at = clk i\<rparr>]"
    by (simp add: saveCoffee_def Let_def)
  show ?case
    by (simp add: Cons.IH seq cof next_id_step map_upt_Suc del: upt_Suc)
qed

lemma deleteUserCoffees_none [simp]:
  "filter (\<lambda>c. c_user_id c = userId) (coffees (deleteUserCoffees d userId)) = []"
  by (simp add: deleteUserCoffees_def filter_empty_conv)

lemma saved_rows_user [simp]:
  "filter (\<lambda>c. c_user_id c = userId) (saved_rows P clk first userId cs) = saved_rows P clk first userId cs"
  by (simp add: saved_rows_def filter_map comp_def)

lemma insert_array:
  "insert_coffees P clk d userId (Some (JArr cs)) = (insert_all P clk 0 userId cs d, None)"
  by (cases cs) (simp_all add: insert_coffees_def)

lemma getUserCoffees_after_save:
  "getUserCoffees (insert_all P clk 0 userId cs (deleteUserCoffees d userId)) userId =
     sort_key (\<lambda>c. - int (c_created_at c))
       (saved_rows P clk (next_id (coffees_seq d) (map c_id (coffees (deleteUserCoffees d userId)))) userId cs)"
  by (simp add: getUserCoffees_def insert_all_coffees saved_rows_def[symmetric])
     (simp add: deleteUserCoffees_def)


subsection \<open>Listing what was saved\<close>

lemma map_insort_key:
  "map f (insort_key (\<lambda>x. g (f x)) x xs) = insort_key g (f x) (map f xs)"
  by (induction xs) simp_all

lemma map_sort_key:
  "map f (sort_key (\<lambda>x. g (f x)) xs) = sort_key g (map f xs)"
  by (induction xs) (simp_all add: map_insort_key)

lemma parse_rows_pairs:
  assumes "\<forall>(row, v) \<in> set ps. JSON_parse P (c_data row) = Some v"
  shows "parse_rows P (map fst ps) = Inr (map (\<lambda>(row, v). merged_record row v) ps)"
  using assms by (induction ps) auto

lemma zip_saved_rows:
  "zip (saved_rows P clk first userId cs) cs =
     map (\<lambda>i. (\<lparr>c_id = first + i, c_user_id = userId, c_data = JSON_stringify P (cs ! i),
                 c_created_at = clk i\<rparr>, cs ! i)) [0..<length cs]"
proof -
  have "zip (saved_rows P clk first userId cs) (map (\<lambda>i. cs ! i) [0..<length cs]) =
     map (\<lambda>i. (\<lparr>c_id = first + i, c_user_id = userId, c_data = JSON_stringify P (cs ! i),
                 c_created_at = clk i\<rparr>, cs ! i)) [0..<length cs]"
    unfolding saved_rows_def by (simp add: zip_map_map zip_same_conv_map)
  then show ?thesis by (simp add: map_nth)
qed

lemma parse_saved_rows:
  assumes "\<forall>c \<in> set cs. JSON_parse P (JSON_stringify P c) = Some c"
  shows "parse_rows P (sort_key (\<lambda>c. - int (c_created_at c)) (saved_rows P clk first userId cs)) =
           Inr (newest_first (zip (saved_rows P clk first userId cs) cs))"
proof -
  let ?ps = "zip (saved_rows P clk first userId cs) cs"
  let ?sorted = "sort_key (\<lambda>p. - int (c_created_at (fst p))) ?ps"
  have len: "length (saved_rows P clk first userId cs) = length cs"
    by (simp add: saved_rows_def)
  have "\<forall>(row, v) \<in> set ?ps. JSON_parse P (c_data row) = Some v"
    using assms by (auto simp: zip_saved_rows)
  then have "\<forall>(row, v) \<in> set ?sorted. JSON_parse P (c_data row) = Some v"
    by simp
  then have "parse_rows P (map fst ?sorted) = Inr (map (\<lambda>(row, v). merged_record row v) ?sorted)"
    by (rule parse_rows_pairs)
  moreover have "map fst ?sorted = sort_key (\<lambda>c. - int (c_created_at c)) (map fst ?ps)"
    by (rule map_sort_key)
  moreover have "map fst ?ps = saved_rows P clk first userId cs"
    using len by simp
  ultimately show ?thesis
    by (simp add: newest_first_def case_prod_unfold)
qed


lemma post_coffees_valid:
  assumes "getUserByToken d t = Some user" and "t \<noteq> []" and "req_token req = Some t"
  shows "post_coffees P clk d req =
     (case insert_coffees P clk (deleteUserCoffees d (u_id user)) (u_id user) (req_coffees req) of
        (d', Some e) \<Rightarrow> (d', server_error)
      | (d', None) \<Rightarrow> (d', respond 200 [(''success'', JBool True),
                                         (''saved'', saved_count (req_coffees req))]))"
  using assms by (simp add: post_coffees_def)

lemma deleteUserCoffees_users [simp]: "users (deleteUserCoffees d userId) = users d"
  by (simp add: deleteUserCoffees_def)

lemma saved_count_array: "saved_count (Some (JArr cs)) = JNum (int (length cs))"
  by (simp add: saved_count_def js_or_def)

lemma post_coffees_array:
  assumes "getUserByToken d t = Some user" and "t \<noteq> []"
  shows "post_coffees P clk d (save_request t cs) =
       (insert_all P clk 0 (u_id user) cs (deleteUserCoffees d (u_id user)),
        respond 200 [(''success'', JBool True), (''saved'', JNum (int (length cs)))])"
proof -
  have "req_token (save_request t cs) = Some t" "req_coffees (save_request t cs) = Some (JArr cs)"
    by (simp_all add: save_request_def)
  then show ?thesis
    using post_coffees_valid[OF assms, of "save_request t cs" P clk]
    by (simp add: insert_array saved_count_array)
qed

lemma get_coffees_valid:
  assumes "getUserByToken d t = Some user" and "t \<noteq> []"
  shows "get_coffees P d (Some t) =
     (case parse_rows P (getUserCoffees d (u_id user)) of
        Inl e \<Rightarrow> server_error
      | Inr parsed \<Rightarrow> respond 200 [(''success'', JBool True), (''coffees'', JArr parsed)])"
  using assms by (simp add: get_coffees_def)

lemma save_then_list:
  assumes "getUserByToken d t = Some user" and "t \<noteq> []"
    and "\<forall>c \<in> set cs. JSON_parse P (JSON_stringify P c) = Some c"
  shows "get_coffees P (fst (post_coffees P clk d (save_request t cs))) (Some t) =
         respond 200 [(''success'', JBool True),
                      (''coffees'', JArr (newest_first
                         (zip (saved_rows P clk (first_free d (u_id user)) (u_id user) cs) cs)))]"
proof -
  let ?d' = "insert_all P clk 0 (u_id user) cs (deleteUserCoffees d (u_id user))"
  have post: "fst (post_coffees P clk d (save_request t cs)) = ?d'"
    using post_coffees_array[OF assms(1,2)] by simp
  have user: "getUserByToken ?d' t = Some user"
    using assms(1) by (simp add: getUserByToken_def)
  show ?thesis
    unfolding post get_coffees_valid[OF user assms(2)] getUserCoffees_after_save
      parse_saved_rows[OF assms(3)] first_free_def
    by simp
qed

lemma post_coffees_users:
  "users (fst (post_coffees P clk d req)) = users d"
proof (cases "req_token req")
  case None
  then show ?thesis by (simp add: post_coffees_def)
next
  case (Some t)
  show ?thesis
  proof (cases "t \<noteq> [] \<and> getUserByToken d t \<noteq> None")
    case False
    with Some show ?thesis by (auto simp: post_coffees_def)
  next
    case True
    then obtain user where u: "getUserByToken d t = Some user" and t: "t \<noteq> []" by auto
    have "users (fst (insert_coffees P clk d0 userId coffees')) = users d0" for d0 userId coffees'
      by (auto simp: insert_coffees_def split: option.splits sum.splits)
    then show ?thesis
      unfolding post_coffees_valid[OF u t Some]
      by (simp add: split_beta split: option.splits)
  qed
qed

lemma map_of_spread_members:
  "distinct (map fst kvs) \<Longrightarrow>
     map_of (foldl (\<lambda>acc (k, x). AList.update k x acc) target kvs) = map_of target ++ map_of kvs"
proof (induction kvs arbitrary: target)
  case Nil
  then show ?case by simp
next
  case (Cons p kvs)
  obtain k x where p: "p = (k, x)" by (cases p)
  have "map_of kvs k = None"
    using Cons.prems p by (simp add: map_of_eq_None_iff)
  then show ?case
    using Cons p by (auto simp: update_conv' fun_eq_iff map_add_def split: option.splits)
qed

text \<open>
  The content of a listed record: the stored members, of which a stored \<open>savedAt\<close> is
  replaced by the timestamp of the row and a stored \<open>id\<close> is kept; the id of the row
  is the \<open>id\<close> of a record that stores none.
\<close>

lemma merged_record_members:
  "member_of (Some (merged_record row (JObj kvs))) k =
     (if k = ''savedAt'' then Some (JNum (int (c_created_at row)))
      else case map_of kvs k of
             Some v \<Rightarrow> Some v
           | None \<Rightarrow> if k = ''id'' then Some (JNum (int (c_id row))) else None)"
  by (simp add: merged_record_def spread_def update_conv' map_of_spread_members
      distinct_clearjunk map_of_clearjunk map_add_def split: option.splits)

text \<open>
  The order of a listing: that of the list saved when all inserts fall into one second;
  in every case the listed records are those of the list saved.
\<close>

lemma newest_first_same_second:
  assumes "\<forall>(row, v) \<in> set ps. c_created_at row = s"
  shows "newest_first ps = map (\<lambda>(row, v). merged_record row v) ps"
proof -
  have "sorted (map (\<lambda>(row, v). - int (c_created_at row)) ps)"
    using assms by (induction ps) auto
  then show ?thesis
    by (simp add: newest_first_def sort_key_id_if_sorted)
qed

lemma newest_first_mset:
  "mset (newest_first ps) = mset (map (\<lambda>(row, v). merged_record row v) ps)"
  by (simp add: newest_first_def)

text \<open>
  Claim C1. For a user with a valid token, saving the list \<open>cs\<close> and then listing
  yields exactly the records of \<open>cs\<close>, each the stored value merged with the id and the
  timestamp of its row, newest first, whatever the user had stored before; saving
  \<open>cs'\<close> after that and listing yields exactly the records of \<open>cs'\<close>; and saving
  the empty list leaves the user's list empty. The values are assumed to survive
  \<open>JSON.stringify\<close> followed by \<open>JSON.parse\<close>.
\<close>

theorem replace_then_list:
  assumes "getUserByToken d t = Some user" and "t \<noteq> []"
    and "\<forall>c \<in> set cs. JSON_parse P (JSON_stringify P c) = Some c"
    and "\<forall>c \<in> set cs'. JSON_parse P (JSON_stringify P c) = Some c"
    and "d1 = fst (post_coffees P clk d (save_request t cs))"
    and "d2 = fst (post_coffees P clk' d1 (save_request t cs'))"
    and "d3 = fst (post_coffees P clk'' d2 (save_request t []))"
  shows "snd (post_coffees P clk d (save_request t cs)) =
           respond 200 [(''success'', JBool True), (''saved'', JNum (int (length cs)))]
     \<and> get_coffees P d1 (Some t) =
           respond 200 [(''success'', JBool True),
                        (''coffees'', JArr (newest_first
                           (zip (saved_rows P clk (first_free d (u_id user)) (u_id user) cs) cs)))]
     \<and> get_coffees P d2 (Some t) =
           respond 200 [(''success'', JBool True),
                        (''coffees'', JArr (newest_first
                           (zip (saved_rows P clk' (first_free d1 (u_id user)) (u_id user) cs') cs')))]
     \<and> get_coffees P d3 (Some t) = respond 200 [(''success'', JBool True), (''coffees'', JArr [])]"
proof (intro conjI)
  show "snd (post_coffees P clk d (save_request t cs)) =
           respond 200 [(''success'', JBool True), (''saved'', JNum (int (length cs)))]"
    using post_coffees_array[OF assms(1,2)] by simp
  show "get_coffees P d1 (Some t) =
           respond 200 [(''success'', JBool True),
                        (''coffees'', JArr (newest_first
                           (zip (saved_rows P clk (first_free d (u_id user)) (u_id user) cs) cs)))]"
    unfolding assms(5) by (rule save_then_list[OF assms(1,2,3)])
  have u1: "getUserByToken d1 t = Some user"
    using assms(1) by (simp add: assms(5) getUserByToken_def post_coffees_users)
  show "get_coffees P d2 (Some t) =
           respond 200 [(''success'', JBool True),
                        (''coffees'', JArr (newest_first
                           (zip (saved_rows P clk' (first_free d1 (u_id user)) (u_id user) cs') cs')))]"
    unfolding assms(6) by (rule save_then_list[OF u1 assms(2,4)])
  have u2: "getUserByToken d2 t = Some user"
    using u1 by (simp add: assms(6) getUserByToken_def post_coffees_users)
  have "get_coffees P d3 (Some t) =
           respond 200 [(''success'', JBool True),
                        (''coffees'', JArr (newest_first
                           (zip (saved_rows P clk'' (first_free d2 (u_id user)) (u_id user) []) [])))]"
    unfolding assms(7) by (rule save_then_list[OF u2 assms(2)]) simp
  then show "get_coffees P d3 (Some t) = respond 200 [(''success'', JBool True), (''coffees'', JArr [])]"
    by (simp add: newest_first_def)
qed

text \<open>The sample database.\<close>

lemma alice_db_value:
  \<open>alice_db = \<lparr>users = [\<lparr>u_id = 1, u_username = ''alice'', u_token = ''T1'', u_created_at = 3\<rparr>],
               coffees = [\<lparr>c_id = 1, c_user_id = 1, c_data = ''{"name":"X"}'', c_created_at = 5\<rparr>],
               users_seq = 1, coffees_seq = 1\<rparr>\<close>
  by (simp add: alice_db_def register_def register_request_def trim_def is_space_def
      getUserCount_def empty_database_def select_user_lower_def createUser_def next_id_def
      post_coffees_array[where user = "\<lparr>u_id = 1, u_username = ''alice'', u_token = ''T1'', u_created_at = 3\<rparr>"]
      getUserByToken_def deleteUserCoffees_def saveCoffee_def sample_platform_def sample_stringify_def)

lemma alice_token:
  "getUserByToken alice_db ''T1'' =
     Some \<lparr>u_id = 1, u_username = ''alice'', u_token = ''T1'', u_created_at = 3\<rparr>"
  by (simp add: alice_db_value getUserByToken_def)


lemma sample_roundtrip:
  "\<forall>c \<in> set [coffee_Y, coffee_Z]. JSON_parse sample_platform (JSON_stringify sample_platform c) = Some c"
  "\<forall>c \<in> set [coffee_X]. JSON_parse sample_platform (JSON_stringify sample_platform c) = Some c"
  by (simp_all add: sample_platform_def sample_stringify_def sample_parse_def
      coffee_X_def coffee_Y_def coffee_Z_def)

text \<open>
  Witness for C1: alice, who has one coffee stored, saves two coffees, then one, then
  the empty list, and lists after each save.
\<close>

theorem replace_then_list_witness:
  "get_coffees sample_platform
     (fst (post_coffees sample_platform (at_second 7) alice_db (save_request ''T1'' [coffee_Y, coffee_Z])))
     (Some ''T1'') =
     respond 200 [(''success'', JBool True),
       (''coffees'', JArr [JObj [(''id'', JNum 2), (''name'', JStr ''Y''), (''origin'', JStr ''Kenya''),
                                 (''savedAt'', JNum 7)],
                           JObj [(''id'', JNum 3), (''name'', JStr ''Z''), (''savedAt'', JNum 7)]])]
   \<and> get_coffees sample_platform
     (fst (post_coffees sample_platform (at_second 8)
        (fst (post_coffees sample_platform (at_second 7) alice_db (save_request ''T1'' [coffee_Y, coffee_Z])))
        (save_request ''T1'' [coffee_X])))
     (Some ''T1'') =
     respond 200 [(''success'', JBool True),
       (''coffees'', JArr [JObj [(''id'', JNum 4), (''name'', JStr ''X''), (''savedAt'', JNum 8)]])]
   \<and> get_coffees sample_platform
     (fst (post_coffees sample_platform (at_second 9)
        (fst (post_coffees sample_platform (at_second 8)
           (fst (post_coffees sample_platform (at_second 7) alice_db (save_request ''T1'' [coffee_Y, coffee_Z])))
           (save_request ''T1'' [coffee_X])))
        (save_request ''T1'' [])))
     (Some ''T1'') =
     respond 200 [(''success'', JBool True), (''coffees'', JArr [])]"
proof -
  let ?user = "\<lparr>u_id = 1, u_username = ''alice'', u_token = ''T1'', u_created_at = 3\<rparr>"
  let ?d1 = "fst (post_coffees sample_platform (at_second 7) alice_db (save_request ''T1'' [coffee_Y, coffee_Z]))"
  have d1: \<open>?d1 = \<lparr>users = [?user],
       coffees = [\<lparr>c_id = 2, c_user_id = 1, c_data = ''{"name":"Y","origin":"Kenya"}'', c_created_at = 7\<rparr>,
                  \<lparr>c_id = 3, c_user_id = 1, c_data = ''{"name":"Z"}'', c_created_at = 7\<rparr>],
       users_seq = 1, coffees_seq = 3\<rparr>\<close>
    by (simp add: post_coffees_array[OF alice_token])
       (simp add: alice_db_value deleteUserCoffees_def saveCoffee_def next_id_def at_second_def
          sample_platform_def sample_stringify_def coffee_Y_def coffee_Z_def)
  have first: "first_free alice_db 1 = 2" "first_free ?d1 1 = 4"
    unfolding d1 by (simp_all add: first_free_def alice_db_value deleteUserCoffees_def next_id_def)
  show ?thesis
    using replace_then_list[OF alice_token _ sample_roundtrip refl refl refl,
        of "at_second 7" "at_second 8" "at_second 9"] first
    by (simp add: saved_rows_def newest_first_def merged_record_def spread_def at_second_def
        coffee_X_def coffee_Y_def coffee_Z_def upt_rec AList.delete_eq)
qed


subsection \<open>Saving without a list\<close>

text \<open>
  Claim C10. A save with a valid token whose \<open>coffees\<close> member is absent or \<open>null\<close>
  deletes all records of the user and answers with success and \<open>saved = 0\<close>, exactly
  as a save of the empty list does.
\<close>

theorem save_without_list:
  assumes "getUserByToken d t = Some user" and "t \<noteq> []"
    and "coffees' = None \<or> coffees' = Some JNull"
  shows "post_coffees P clk d \<lparr>req_token = Some t, req_coffees = coffees'\<rparr> =
           (deleteUserCoffees d (u_id user),
            respond 200 [(''success'', JBool True), (''saved'', JNum 0)])
     \<and> post_coffees P clk d \<lparr>req_token = Some t, req_coffees = coffees'\<rparr> =
           post_coffees P clk d (save_request t [])
     \<and> getUserCoffees (deleteUserCoffees d (u_id user)) (u_id user) = []"
proof -
  have "post_coffees P clk d \<lparr>req_token = Some t, req_coffees = coffees'\<rparr> =
           (deleteUserCoffees d (u_id user),
            respond 200 [(''success'', JBool True), (''saved'', JNum 0)])"
    using assms(3) post_coffees_valid[OF assms(1,2), of "\<lparr>req_token = Some t, req_coffees = coffees'\<rparr>" P clk]
    by (auto simp: insert_coffees_def saved_count_def)
  moreover have "post_coffees P clk d (save_request t []) =
           (deleteUserCoffees d (u_id user),
            respond 200 [(''success'', JBool True), (''saved'', JNum 0)])"
    using post_coffees_array[OF assms(1,2), of P clk "[]"] by simp
  moreover have "getUserCoffees (deleteUserCoffees d (u_id user)) (u_id user) = []"
    by (simp add: getUserCoffees_def)
  ultimately show ?thesis by simp
qed

text \<open>Witness for C10: alice saves without a list.\<close>

theorem save_without_list_witness:
  "post_coffees sample_platform (at_second 9) alice_db \<lparr>req_token = Some ''T1'', req_coffees = None\<rparr> =
     (deleteUserCoffees alice_db 1, respond 200 [(''success'', JBool True), (''saved'', JNum 0)])
   \<and> post_coffees sample_platform (at_second 9) alice_db \<lparr>req_token = Some ''T1'', req_coffees = None\<rparr> =
       post_coffees sample_platform (at_second 9) alice_db (save_request ''T1'' [])
   \<and> getUserCoffees (deleteUserCoffees alice_db 1) 1 = []"
proof -
  let ?user = "\<lparr>u_id = 1, u_username = ''alice'', u_token = ''T1'', u_created_at = 3\<rparr>"
  have "post_coffees sample_platform (at_second 9) alice_db \<lparr>req_token = Some ''T1'', req_coffees = None\<rparr> =
     (deleteUserCoffees alice_db (u_id ?user), respond 200 [(''success'', JBool True), (''saved'', JNum 0)])
   \<and> post_coffees sample_platform (at_second 9) alice_db \<lparr>req_token = Some ''T1'', req_coffees = None\<rparr> =
       post_coffees sample_platform (at_second 9) alice_db (save_request ''T1'' [])
   \<and> getUserCoffees (deleteUserCoffees alice_db (u_id ?user)) (u_id ?user) = []"
    by (rule save_without_list[OF alice_token]) simp_all
  then show ?thesis
    unfolding user_row.select_convs .
qed

subsection \<open>A save that fails\<close>

text \<open>
  Claim C3, as amended. The save runs its delete and its inserts as statements of their
  own, not as one transaction. A save with a valid token answers 200 or 500, never
  touches the users or the records of other users, and when it fails (500) it fails
  after the delete: the records the user had stored are gone and the user's list is
  left empty.
\<close>

theorem save_not_atomic:
  assumes "getUserByToken d t = Some user" and "t \<noteq> []" and "req_token req = Some t"
    and "post_coffees P clk d req = (d', r)"
  shows "users d' = users d
     \<and> filter (\<lambda>c. c_user_id c \<noteq> u_id user) (coffees d') =
         filter (\<lambda>c. c_user_id c \<noteq> u_id user) (coffees d)
     \<and> (status r = 200 \<or> status r = 500)
     \<and> (status r = 500 \<longrightarrow>
           d' = deleteUserCoffees d (u_id user) \<and> getUserCoffees d' (u_id user) = [])"
proof -
  let ?d0 = "deleteUserCoffees d (u_id user)"
  obtain d1 e where ins: "insert_coffees P clk ?d0 (u_id user) (req_coffees req) = (d1, e)"
    by (cases "insert_coffees P clk ?d0 (u_id user) (req_coffees req)")
  have res: "d' = d1" "r = (case e of Some x \<Rightarrow> server_error
      | None \<Rightarrow> respond 200 [(''success'', JBool True), (''saved'', saved_count (req_coffees req))])"
    using assms(4) post_coffees_valid[OF assms(1,2,3), of P clk] ins
    by (auto split: option.splits)
  have others0: "filter (\<lambda>c. c_user_id c \<noteq> u_id user) (coffees ?d0) =
      filter (\<lambda>c. c_user_id c \<noteq> u_id user) (coffees d)"
    by (simp add: deleteUserCoffees_def)
  have shape: "(e \<noteq> None \<and> d1 = ?d0) \<or>
      (e = None \<and> (d1 = ?d0 \<or> (\<exists>cs. d1 = insert_all P clk 0 (u_id user) cs ?d0)))"
    using ins by (auto simp: insert_coffees_def split: option.splits sum.splits if_splits)
  have others_ins: "filter (\<lambda>c. c_user_id c \<noteq> u_id user) (coffees (insert_all P clk 0 (u_id user) cs ?d0)) =
      filter (\<lambda>c. c_user_id c \<noteq> u_id user) (coffees ?d0)" for cs
    by (simp add: insert_all_coffees filter_map comp_def)
  have "users d1 = users d"
    using shape by auto
  moreover have "filter (\<lambda>c. c_user_id c \<noteq> u_id user) (coffees d1) =
      filter (\<lambda>c. c_user_id c \<noteq> u_id user) (coffees d)"
    using shape others0 others_ins by auto
  moreover have "status r = 200 \<or> status r = 500"
    using res(2) by (cases e) (simp_all add: server_error_def respond_def)
  moreover have "status r = 500 \<longrightarrow> d1 = ?d0 \<and> getUserCoffees d1 (u_id user) = []"
  proof
    assume "status r = 500"
    then have "e \<noteq> None"
      using res(2) by (cases e) (simp_all add: respond_def)
    with shape have "d1 = ?d0" by auto
    then show "d1 = ?d0 \<and> getUserCoffees d1 (u_id user) = []"
      by (simp add: getUserCoffees_def)
  qed
  ultimately show ?thesis using res(1) by (simp add: getUserCoffees_def)
qed

text \<open>A save that is rejected (401) is rejected before the delete.\<close>

lemma save_rejected_unchanged:
  assumes "status (snd (post_coffees P clk d req)) = 401"
  shows "fst (post_coffees P clk d req) = d"
  using assms
  by (auto simp: post_coffees_def respond_def server_error_def
      split: option.splits if_splits prod.splits)

text \<open>
  A value for \<open>coffees\<close> that has a positive \<open>length\<close> and is not iterable: the loop
  throws after the delete.
\<close>

lemma bad_list_throws:
  "post_coffees sample_platform (at_second 9) alice_db
     \<lparr>req_token = Some ''T1'', req_coffees = Some (JObj [(''length'', JNum 1)])\<rparr> =
     (deleteUserCoffees alice_db 1, server_error)"
  using post_coffees_valid[OF alice_token, of "\<lparr>req_token = Some ''T1'', req_coffees = Some (JObj [(''length'', JNum 1)])\<rparr>"
      sample_platform "at_second 9"]
  by (simp add: insert_coffees_def)

text \<open>Witness for C3: that request, sent by alice.\<close>

theorem save_not_atomic_witness:
  "users (deleteUserCoffees alice_db 1) = users alice_db
     \<and> filter (\<lambda>c. c_user_id c \<noteq> 1) (coffees (deleteUserCoffees alice_db 1)) =
         filter (\<lambda>c. c_user_id c \<noteq> 1) (coffees alice_db)
     \<and> status server_error = 500
     \<and> getUserCoffees (deleteUserCoffees alice_db 1) 1 = []"
proof -
  let ?user = "\<lparr>u_id = 1, u_username = ''alice'', u_token = ''T1'', u_created_at = 3\<rparr>"
  let ?d' = "deleteUserCoffees alice_db 1"
  have "users ?d' = users alice_db
     \<and> filter (\<lambda>c. c_user_id c \<noteq> u_id ?user) (coffees ?d') =
         filter (\<lambda>c. c_user_id c \<noteq> u_id ?user) (coffees alice_db)
     \<and> (status server_error = 200 \<or> status server_error = 500)
     \<and> (status server_error = 500 \<longrightarrow>
           ?d' = deleteUserCoffees alice_db (u_id ?user) \<and> getUserCoffees ?d' (u_id ?user) = [])"
    by (rule save_not_atomic[OF alice_token _ _ bad_list_throws]) simp_all
  moreover have "status server_error = 500"
    by (simp add: server_error_def respond_def)
  ultimately show ?thesis
    unfolding user_row.select_convs by blast
qed

text \<open>
  Counterexample to C3 as stated: the request fails with status 500, and the coffee that
  alice had stored is lost.
\<close>

theorem save_not_atomic_counterexample:
  "status (snd (post_coffees sample_platform (at_second 9) alice_db
       \<lparr>req_token = Some ''T1'', req_coffees = Some (JObj [(''length'', JNum 1)])\<rparr>)) = 500
   \<and> getUserCoffees alice_db 1 \<noteq> []
   \<and> getUserCoffees (fst (post_coffees sample_platform (at_second 9) alice_db
       \<lparr>req_token = Some ''T1'', req_coffees = Some (JObj [(''length'', JNum 1)])\<rparr>)) 1 = []"
  by (simp add: bad_list_throws server_error_def respond_def)
     (simp add: alice_db_value getUserCoffees_def deleteUserCoffees_def)

section \<open>Properties of the state machine\<close>

subsection \<open>Runs and single requests\<close>

lemma serve_all_Nil [simp]: "serve_all P s [] = s"
  by (simp add: serve_all_def)

lemma serve_all_Cons: "serve_all P s (a # actions) = serve_all P (act P s a) actions"
  by (simp add: serve_all_def)

lemma serve_all_append: "serve_all P s (xs @ ys) = serve_all P (serve_all P s xs) ys"
  by (simp add: serve_all_def)

lemma run_task_Done [simp]: "run_task P n d (Done r) = (d, Done r)"
  by (induction n) simp_all

lemma run_task_add: "run_task P (m + n) d t = (case run_task P m d t of (d', t') \<Rightarrow> run_task P n d' t')"
  by (induction m arbitrary: d t) (simp_all add: split_beta)

lemma resume_last:
  "act P \<lparr>db = d, tasks = ts @ [t]\<rparr> (Resume (length ts)) =
     \<lparr>db = fst (step P d t), tasks = ts @ [snd (step P d t)]\<rparr>"
  by (simp add: split_beta)

lemma resume_alone:
  "serve_all P \<lparr>db = d, tasks = ts @ [t]\<rparr> (replicate n (Resume (length ts))) =
     \<lparr>db = fst (run_task P n d t), tasks = ts @ [snd (run_task P n d t)]\<rparr>"
proof (induction n arbitrary: d t)
  case 0
  then show ?case by simp
next
  case (Suc n)
  show ?case
    unfolding replicate_Suc serve_all_Cons resume_last Suc.IH
    by (simp add: split_beta)
qed

lemma validate_run_task:
  "run_task P (Suc 0) d (start (Validate token)) = (d, Done (validate d token))"
  by (simp add: validate_def split: option.splits)

lemma get_coffees_run_task:
  "run_task P (Suc (Suc 0)) d (start (GetCoffees token)) = (d, Done (get_coffees P d token))"
  by (simp add: get_coffees_def split: option.splits sum.splits)

lemma inserts_run_task:
  "run_task P (Suc (length cs)) d (next_insert userId cs i v clk) =
     (insert_all P clk i userId cs d,
      Done (respond 200 [(''success'', JBool True), (''saved'', saved_count (Some v))]))"
  by (induction cs arbitrary: d i) simp_all

lemma post_delete_run_task:
  "\<exists>n. run_task P n d (Post_delete userId coffees' clk) =
     (fst (insert_coffees P clk (deleteUserCoffees d userId) userId coffees'),
      Done (case snd (insert_coffees P clk (deleteUserCoffees d userId) userId coffees') of
              Some e \<Rightarrow> server_error
            | None \<Rightarrow> respond 200 [(''success'', JBool True), (''saved'', saved_count coffees')]))"
proof (cases "\<exists>v cs. coffees' = Some v \<and> truthy v \<and> js_gt0 P (js_length v) = Inr True
                      \<and> js_iterate v = Inr cs")
  case True
  then obtain v cs where v: "coffees' = Some v" "truthy v" "js_gt0 P (js_length v) = Inr True"
    "js_iterate v = Inr cs" by blast
  have "run_task P (Suc (Suc (Suc (length cs)))) d (Post_delete userId coffees' clk) =
     run_task P (Suc (length cs)) (deleteUserCoffees d userId) (next_insert userId cs 0 v clk)"
    using v by simp
  then show ?thesis
    using v unfolding inserts_run_task by (intro exI[of _ "Suc (Suc (Suc (length cs)))"]) (simp add: insert_coffees_def)
next
  case False
  then have "run_task P (Suc (Suc 0)) d (Post_delete userId coffees' clk) =
     (fst (insert_coffees P clk (deleteUserCoffees d userId) userId coffees'),
      Done (case snd (insert_coffees P clk (deleteUserCoffees d userId) userId coffees') of
              Some e \<Rightarrow> server_error
            | None \<Rightarrow> respond 200 [(''success'', JBool True), (''saved'', saved_count coffees')]))"
    by (auto simp: insert_coffees_def split: option.splits sum.splits)
  then show ?thesis by blast
qed

lemma post_coffees_run_task:
  "\<exists>n. run_task P n d (start (PostCoffees req clk)) =
     (fst (post_coffees P clk d req), Done (snd (post_coffees P clk d req)))"
proof (cases "\<exists>t user. req_token req = Some t \<and> t \<noteq> [] \<and> getUserByToken d t = Some user")
  case True
  then obtain t user where t: "req_token req = Some t" "t \<noteq> []" "getUserByToken d t = Some user"
    by blast
  obtain n where n: "run_task P n d (Post_delete (u_id user) (req_coffees req) clk) =
     (fst (insert_coffees P clk (deleteUserCoffees d (u_id user)) (u_id user) (req_coffees req)),
      Done (case snd (insert_coffees P clk (deleteUserCoffees d (u_id user)) (u_id user) (req_coffees req)) of
              Some e \<Rightarrow> server_error
            | None \<Rightarrow> respond 200 [(''success'', JBool True), (''saved'', saved_count (req_coffees req))]))"
    using post_delete_run_task by blast
  have "run_task P (Suc n) d (start (PostCoffees req clk)) =
     run_task P n d (Post_delete (u_id user) (req_coffees req) clk)"
    using t by simp
  also have "\<dots> = (fst (post_coffees P clk d req), Done (snd (post_coffees P clk d req)))"
    unfolding n using t by (simp add: post_coffees_def split_beta split: option.splits)
  finally show ?thesis by blast
next
  case False
  then have "run_task P (Suc 0) d (start (PostCoffees req clk)) =
     (fst (post_coffees P clk d req), Done (snd (post_coffees P clk d req)))"
    by (auto simp: post_coffees_def split: option.splits)
  then show ?thesis by blast
qed

lemma analyze_answer:
  "answer P now result (start (AnalyzeCoffee req)) =
     Done (sent (analyze_coffee P api_key now (\<lambda>request. result) req))"
  by (simp add: analyze_coffee_def Let_def split: option.splits sum.splits)

lemma register_run_task:
  "run_task P (Suc (Suc (Suc (Suc 0)))) d (start (Register req uuid now)) =
     (fst (register d uuid now req), Done (snd (register d uuid now req)))"
proof (cases "req_username req")
  case None
  then show ?thesis by (simp add: register_def)
next
  case (Some v)
  show ?thesis
  proof (cases v)
    case (JStr username)
    show ?thesis
    proof (cases "username = [] \<or> length (trim username) < 2")
      case True
      then show ?thesis using Some JStr by (auto simp: register_def)
    next
      case False
      then have start: "start (Register req uuid now) = Register_count (trim username) uuid now"
        using Some JStr by simp
      show ?thesis
      proof (cases "10 \<le> getUserCount d")
        case True
        then show ?thesis using Some JStr False by (simp add: start register_def)
      next
        case small: False
        show ?thesis
        proof (cases "select_user_lower d (trim username)")
          case (Some existing)
          then show ?thesis
            using \<open>req_username req = Some v\<close> JStr False small by (simp add: start register_def)
        next
          case None
          then show ?thesis
            using \<open>req_username req = Some v\<close> JStr False small
            by (cases "createUser d (trim username) uuid now")
               (simp_all add: start register_def split_beta)
        qed
      qed
    qed
  qed (simp_all add: Some register_def)
qed



subsection \<open>The users over a run\<close>

text \<open>
  A statement leaves the users table as it is or adds one row at its end; the row
  carries the token of a registration in progress, and no earlier row has that token.
\<close>

lemma step_users:
  "users (fst (step P d t)) = users d \<or>
     (\<exists>u. users (fst (step P d t)) = users d @ [u] \<and> u_token u \<in> task_token t
           \<and> u_token u \<notin> u_token ` set (users d))"
  by (cases t)
     (auto simp: createUser_def Let_def list_ex_iff deleteUserCoffees_def saveCoffee_def
        split: option.splits sum.splits)

lemma next_insert_token [simp]: "task_token (next_insert userId cs i v clk) = {}"
  by (cases cs) simp_all

lemma nth_token: "i < length (tasks s) \<Longrightarrow> task_token (tasks s ! i) \<subseteq> (\<Union>t \<in> set (tasks s). task_token t)"
  using nth_mem by blast

lemma step_token: "task_token (snd (step P d t)) \<subseteq> task_token t"
  by (cases t) (auto simp: createUser_def Let_def split: option.splits sum.splits list.splits)

lemma start_token: "task_token (start ev) \<subseteq> arrival_token (Arrive ev)"
  by (cases ev) (auto split: option.splits json.splits)

lemma act_users:
  "users (db (act P s a)) = users (db s) \<or>
     (\<exists>u. users (db (act P s a)) = users (db s) @ [u] \<and> u_token u \<in> pending s
           \<and> u_token u \<notin> u_token ` set (users (db s)))"
proof (cases a)
  case (Resume i)
  show ?thesis
  proof (cases "i < length (tasks s)")
    case True
    then have "task_token (tasks s ! i) \<subseteq> pending s"
      unfolding pending_def by (rule nth_token)
    then show ?thesis
      using step_users[of P "db s" "tasks s ! i"] True Resume
      by (auto simp: split_beta)
  qed (simp add: Resume)
qed simp_all

lemma act_pending: "pending (act P s a) \<subseteq> pending s \<union> arrival_token a"
proof (cases a)
  case (Arrive ev)
  then show ?thesis using start_token[of ev] by (auto simp: pending_def)
next
  case (Resume i)
  show ?thesis
  proof (cases "i < length (tasks s)")
    case True
    have "set ((tasks s)[i := snd (step P (db s) (tasks s ! i))])
            \<subseteq> insert (snd (step P (db s) (tasks s ! i))) (set (tasks s))"
      by (rule set_update_subset_insert)
    moreover have "task_token (snd (step P (db s) (tasks s ! i))) \<subseteq> pending s"
      using step_token[of P "db s" "tasks s ! i"] nth_token[OF True] by (auto simp: pending_def)
    ultimately show ?thesis
      using True Resume by (auto simp: pending_def split_beta)
  qed (simp add: Resume)
next
  case (Reply i result now)
  show ?thesis
  proof (cases "i < length (tasks s)")
    case True
    have "set ((tasks s)[i := answer P now result (tasks s ! i)])
            \<subseteq> insert (answer P now result (tasks s ! i)) (set (tasks s))"
      by (rule set_update_subset_insert)
    moreover have "task_token (answer P now result (tasks s ! i)) \<subseteq> task_token (tasks s ! i)"
      by (cases "tasks s ! i") auto
    then have "task_token (answer P now result (tasks s ! i)) \<subseteq> pending s"
      using nth_token[OF True] by (auto simp: pending_def)
    ultimately show ?thesis
      using True Reply by (auto simp: pending_def)
  qed (simp add: Reply)
qed

lemma serve_all_users:
  "\<exists>us. users (db (serve_all P s actions)) = users (db s) @ us
        \<and> (\<forall>u \<in> set us. u_token u \<notin> u_token ` set (users (db s))
                         \<and> u_token u \<in> pending s \<union> (\<Union>a \<in> set actions. arrival_token a))"
proof (induction actions arbitrary: s)
  case Nil
  then show ?case by simp
next
  case (Cons a actions)
  obtain us where us: "users (db (serve_all P (act P s a) actions)) = users (db (act P s a)) @ us"
    and fresh: "\<forall>u \<in> set us. u_token u \<notin> u_token ` set (users (db (act P s a)))
                  \<and> u_token u \<in> pending (act P s a) \<union> (\<Union>a \<in> set actions. arrival_token a)"
    using Cons.IH[of "act P s a"] by blast
  have later: "\<forall>u \<in> set us. u_token u \<in> pending s \<union> (\<Union>b \<in> set (a # actions). arrival_token b)"
    using fresh act_pending[of P s a] by auto
  from act_users[of P s a] show ?case
  proof
    assume same: "users (db (act P s a)) = users (db s)"
    have "users (db (serve_all P s (a # actions))) = users (db s) @ us"
      using us same by (simp add: serve_all_Cons)
    moreover have "\<forall>u \<in> set us. u_token u \<notin> u_token ` set (users (db s))"
      using fresh same by simp
    ultimately show ?thesis using later by blast
  next
    assume "\<exists>u. users (db (act P s a)) = users (db s) @ [u] \<and> u_token u \<in> pending s
           \<and> u_token u \<notin> u_token ` set (users (db s))"
    then obtain u where u: "users (db (act P s a)) = users (db s) @ [u]" "u_token u \<in> pending s"
      "u_token u \<notin> u_token ` set (users (db s))" by blast
    have "users (db (serve_all P s (a # actions))) = users (db s) @ (u # us)"
      using us u(1) by (simp add: serve_all_Cons)
    moreover have "\<forall>v \<in> set (u # us). u_token v \<notin> u_token ` set (users (db s))
                  \<and> u_token v \<in> pending s \<union> (\<Union>b \<in> set (a # actions). arrival_token b)"
      using fresh later u by auto
    ultimately show ?thesis by blast
  qed
qed



subsection \<open>Registrations that do not overlap\<close>

lemma next_insert_plain [simp]:
  "\<not> registering (next_insert userId cs i v clk)" "\<not> past_check (next_insert userId cs i v clk)"
  by (cases cs; simp)+

lemma step_registering: "registering (snd (step P d t)) \<Longrightarrow> registering t"
  by (cases t) (auto split: option.splits sum.splits if_splits list.splits)

lemma step_cap:
  "users (fst (step P d t)) = users d
     \<and> (past_check (snd (step P d t)) \<longrightarrow> past_check t \<or> length (users d) < 10)
   \<or> past_check t \<and> \<not> past_check (snd (step P d t))
     \<and> length (users (fst (step P d t))) = Suc (length (users d))"
  by (cases t)
     (auto simp: createUser_def Let_def getUserCount_def deleteUserCoffees_def saveCoffee_def
        split: option.splits sum.splits)

lemma past_check_registering: "past_check t \<Longrightarrow> registering t"
  by (cases t) simp_all

lemma start_registering: "registering (start ev) \<Longrightarrow> is_registration (Arrive ev)"
  by (cases ev) (auto split: option.splits if_splits)

lemma start_past_check [simp]: "\<not> past_check (start ev)"
  by (cases ev) (auto split: option.splits json.splits)

lemma answer_registering [simp]:
  "registering (answer P now result t) = registering t"
  "past_check (answer P now result t) = past_check t"
  by (cases t; simp)+

lemma act_cap_invariant:
  assumes "cap_invariant s" and "is_registration a \<longrightarrow> \<not> list_ex registering (tasks s)"
  shows "cap_invariant (act P s a)"
proof (cases a)
  case (Arrive ev)
  have one: "\<forall>i < length (tasks s). \<forall>j < length (tasks s).
            registering (tasks s ! i) \<and> registering (tasks s ! j) \<longrightarrow> i = j"
    and past: "\<forall>i < length (tasks s). past_check (tasks s ! i) \<longrightarrow> length (users (db s)) < 10"
    and cap: "length (users (db s)) \<le> 10"
    using assms(1) by (simp_all add: cap_invariant_def)
  have none: "registering (start ev) \<Longrightarrow> \<forall>i < length (tasks s). \<not> registering (tasks s ! i)"
    using assms(2) start_registering[of ev] Arrive by (auto simp: list_ex_iff)
  show ?thesis
    unfolding cap_invariant_def
  proof (intro conjI allI impI)
    show "length (users (db (act P s a))) \<le> 10"
      using cap Arrive by simp
  next
    fix i j
    assume "i < length (tasks (act P s a))" "j < length (tasks (act P s a))"
      "registering (tasks (act P s a) ! i) \<and> registering (tasks (act P s a) ! j)"
    then show "i = j"
      using one none Arrive by (auto simp: nth_append less_Suc_eq split: if_splits)
  next
    fix i
    assume "i < length (tasks (act P s a))" "past_check (tasks (act P s a) ! i)"
    then show "length (users (db (act P s a))) < 10"
      using past Arrive by (auto simp: nth_append less_Suc_eq split: if_splits)
  qed
next
  case (Resume k)
  show ?thesis
  proof (cases "k < length (tasks s)")
    case False
    then show ?thesis using assms(1) Resume by simp
  next
    case True
    let ?t = "tasks s ! k"
    let ?d' = "fst (step P (db s) ?t)"
    let ?t' = "snd (step P (db s) ?t)"
    have s': "act P s a = \<lparr>db = ?d', tasks = (tasks s)[k := ?t']\<rparr>"
      using True Resume by (simp add: split_beta)
    have one: "\<forall>i < length (tasks s). \<forall>j < length (tasks s).
            registering (tasks s ! i) \<and> registering (tasks s ! j) \<longrightarrow> i = j"
      and past: "\<forall>i < length (tasks s). past_check (tasks s ! i) \<longrightarrow> length (users (db s)) < 10"
      and cap: "length (users (db s)) \<le> 10"
      using assms(1) by (simp_all add: cap_invariant_def)
    have reg: "\<And>i. i < length (tasks s) \<Longrightarrow> registering ((tasks s)[k := ?t'] ! i)
                 \<Longrightarrow> registering (tasks s ! i)"
      using step_registering[of P "db s" ?t] True by (auto simp: nth_list_update split: if_splits)
    show ?thesis
      unfolding cap_invariant_def s'
    proof (intro conjI allI impI)
      show "length (users (db \<lparr>db = ?d', tasks = (tasks s)[k := ?t']\<rparr>)) \<le> 10"
        using step_cap[of P "db s" ?t] cap past True by auto
    next
      fix i j
      assume "i < length (tasks \<lparr>db = ?d', tasks = (tasks s)[k := ?t']\<rparr>)"
        "j < length (tasks \<lparr>db = ?d', tasks = (tasks s)[k := ?t']\<rparr>)"
        "registering (tasks \<lparr>db = ?d', tasks = (tasks s)[k := ?t']\<rparr> ! i)
          \<and> registering (tasks \<lparr>db = ?d', tasks = (tasks s)[k := ?t']\<rparr> ! j)"
      then show "i = j"
        using one reg by simp
    next
      fix i
      assume i: "i < length (tasks \<lparr>db = ?d', tasks = (tasks s)[k := ?t']\<rparr>)"
        and pc: "past_check (tasks \<lparr>db = ?d', tasks = (tasks s)[k := ?t']\<rparr> ! i)"
      from step_cap[of P "db s" ?t]
      show "length (users (db \<lparr>db = ?d', tasks = (tasks s)[k := ?t']\<rparr>)) < 10"
      proof
        assume same: "users ?d' = users (db s)
          \<and> (past_check ?t' \<longrightarrow> past_check ?t \<or> length (users (db s)) < 10)"
        show ?thesis
        proof (cases "i = k")
          case True
          then have "past_check ?t'" using pc i by simp
          then show ?thesis using same past \<open>k < length (tasks s)\<close> by auto
        next
          case False
          then have "past_check (tasks s ! i)" using pc by simp
          then show ?thesis using same past i by auto
        qed
      next
        assume grew: "past_check ?t \<and> \<not> past_check ?t'
          \<and> length (users ?d') = Suc (length (users (db s)))"
        have "i \<noteq> k" using grew pc i by auto
        then have "past_check (tasks s ! i)" using pc by simp
        then have "registering (tasks s ! i)" "registering ?t"
          using grew past_check_registering by blast+
        then have "i = k" using one i True by simp
        with \<open>i \<noteq> k\<close> show ?thesis by simp
      qed
    qed
  qed
next
  case (Reply k result now)
  show ?thesis
  proof (cases "k < length (tasks s)")
    case False
    then show ?thesis using assms(1) Reply by simp
  next
    case True
    have "\<And>i. registering ((tasks s)[k := answer P now result (tasks s ! k)] ! i)
             = registering (tasks s ! i)"
      "\<And>i. past_check ((tasks s)[k := answer P now result (tasks s ! k)] ! i)
             = past_check (tasks s ! i)"
      using True by (auto simp: nth_list_update)
    then show ?thesis
      using assms(1) True Reply by (simp add: cap_invariant_def)
  qed
qed

lemma serve_all_cap_invariant:
  "cap_invariant s \<Longrightarrow> registrations_in_turn P s actions \<Longrightarrow> cap_invariant (serve_all P s actions)"
proof (induction actions arbitrary: s)
  case Nil
  then show ?case by simp
next
  case (Cons a actions)
  then show ?case
    by (simp add: serve_all_Cons act_cap_invariant)
qed

lemma new_server_cap_invariant: "cap_invariant new_server"
  by (simp add: cap_invariant_def new_server_def empty_database_def)


subsection \<open>The handlers as functions\<close>

lemma register_alone:
  "serve_all P \<lparr>db = d, tasks = ts\<rparr>
     [Arrive (Register req uuid now), Resume (length ts), Resume (length ts),
      Resume (length ts), Resume (length ts)] =
   \<lparr>db = fst (register d uuid now req), tasks = ts @ [Done (snd (register d uuid now req))]\<rparr>"
proof -
  have "serve_all P \<lparr>db = d, tasks = ts\<rparr>
     (Arrive (Register req uuid now) # replicate (Suc (Suc (Suc (Suc 0)))) (Resume (length ts))) =
     serve_all P \<lparr>db = d, tasks = ts @ [start (Register req uuid now)]\<rparr>
       (replicate (Suc (Suc (Suc (Suc 0)))) (Resume (length ts)))"
    unfolding serve_all_Cons by simp
  also have "\<dots> = \<lparr>db = fst (register d uuid now req), tasks = ts @ [Done (snd (register d uuid now req))]\<rparr>"
    unfolding resume_alone register_run_task by simp
  finally show ?thesis by simp
qed

lemma in_turn_register_all:
  "serve_all P \<lparr>db = d, tasks = ts\<rparr> (in_turn (length ts) reqs) =
     \<lparr>db = fst (register_all d reqs), tasks = ts @ map Done (snd (register_all d reqs))\<rparr>"
proof (induction reqs arbitrary: d ts)
  case Nil
  then show ?case by simp
next
  case (Cons r reqs)
  obtain req uuid now where r: "r = (req, uuid, now)" by (cases r)
  let ?d1 = "fst (register d uuid now req)"
  let ?r1 = "snd (register d uuid now req)"
  have "serve_all P \<lparr>db = d, tasks = ts\<rparr> (in_turn (length ts) (r # reqs)) =
        serve_all P \<lparr>db = ?d1, tasks = ts @ [Done ?r1]\<rparr> (in_turn (length (ts @ [Done ?r1])) reqs)"
    unfolding r in_turn.simps serve_all_append register_alone by simp
  also have "\<dots> = \<lparr>db = fst (register_all ?d1 reqs),
                    tasks = (ts @ [Done ?r1]) @ map Done (snd (register_all ?d1 reqs))\<rparr>"
    by (rule Cons.IH)
  finally show ?case
    by (simp add: r split_beta)
qed


lemma validate_alone:
  "serve_all P \<lparr>db = d, tasks = ts\<rparr> [Arrive (Validate token), Resume (length ts)] =
     \<lparr>db = d, tasks = ts @ [Done (validate d token)]\<rparr>"
  using resume_alone[of P d ts "start (Validate token)" "Suc 0"]
  unfolding validate_run_task by (simp add: serve_all_Cons)

lemma get_coffees_alone:
  "serve_all P \<lparr>db = d, tasks = ts\<rparr> [Arrive (GetCoffees token), Resume (length ts), Resume (length ts)] =
     \<lparr>db = d, tasks = ts @ [Done (get_coffees P d token)]\<rparr>"
  using resume_alone[of P d ts "start (GetCoffees token)" "Suc (Suc 0)"]
  unfolding get_coffees_run_task by (simp add: serve_all_Cons)

lemma post_coffees_alone:
  "\<exists>n. serve_all P \<lparr>db = d, tasks = ts\<rparr> (Arrive (PostCoffees req clk) # replicate n (Resume (length ts))) =
     \<lparr>db = fst (post_coffees P clk d req), tasks = ts @ [Done (snd (post_coffees P clk d req))]\<rparr>"
proof -
  obtain n where "run_task P n d (start (PostCoffees req clk)) =
       (fst (post_coffees P clk d req), Done (snd (post_coffees P clk d req)))"
    using post_coffees_run_task by blast
  then have "serve_all P \<lparr>db = d, tasks = ts\<rparr> (Arrive (PostCoffees req clk) # replicate n (Resume (length ts))) =
     \<lparr>db = fst (post_coffees P clk d req), tasks = ts @ [Done (snd (post_coffees P clk d req))]\<rparr>"
    using resume_alone[of P d ts "start (PostCoffees req clk)" n] by (simp add: serve_all_Cons)
  then show ?thesis by blast
qed

lemma analyze_coffee_alone:
  "serve_all P \<lparr>db = d, tasks = ts\<rparr> [Arrive (AnalyzeCoffee req), Reply (length ts) result now] =
     \<lparr>db = d, tasks = ts @ [Done (sent (analyze_coffee P api_key now (\<lambda>request. result) req))]\<rparr>"
  using analyze_answer[of P now result req api_key] by (simp add: serve_all_Cons)

subsection \<open>A request among others\<close>

text \<open>
  When a property of the users table survives new rows, and the statements of a request
  keep it among the states \<open>S\<close> whenever the property holds, then the request stays
  among these states in every run, whatever the other requests do.
\<close>

lemma task_confined:
  assumes stable: "\<And>d us. Q d \<Longrightarrow> Q (d\<lparr>users := users d @ us\<rparr>)"
    and only_users: "\<And>d d'. users d' = users d \<Longrightarrow> Q d \<Longrightarrow> Q d'"
    and closed: "\<And>d t. Q d \<Longrightarrow> t \<in> S \<Longrightarrow> snd (step P d t) \<in> S"
    and replied: "\<And>now result t. t \<in> S \<Longrightarrow> answer P now result t \<in> S"
    and "Q (db s)" and "i < length (tasks s)" and "tasks s ! i \<in> S"
  shows "Q (db (serve_all P s actions)) \<and> i < length (tasks (serve_all P s actions))
         \<and> tasks (serve_all P s actions) ! i \<in> S"
  using assms(5-7)
proof (induction actions arbitrary: s)
  case Nil
  then show ?case by simp
next
  case (Cons a actions)
  have Q: "Q (db (act P s a))"
  proof -
    from act_users[of P s a] show ?thesis
    proof
      assume "users (db (act P s a)) = users (db s)"
      then show ?thesis using only_users Cons.prems(1) by blast
    next
      assume "\<exists>u. users (db (act P s a)) = users (db s) @ [u] \<and> u_token u \<in> pending s
           \<and> u_token u \<notin> u_token ` set (users (db s))"
      then obtain u where "users (db (act P s a)) = users (db s) @ [u]" by blast
      then have "users (db (act P s a)) = users ((db s)\<lparr>users := users (db s) @ [u]\<rparr>)"
        by simp
      then show ?thesis using only_users stable[OF Cons.prems(1)] by blast
    qed
  qed
  have len: "i < length (tasks (act P s a))"
    using Cons.prems(2) by (cases a) (simp_all add: split_beta)
  have "tasks (act P s a) ! i \<in> S"
  proof (cases a)
    case (Arrive ev)
    then show ?thesis using Cons.prems(2,3) by (simp add: nth_append)
  next
    case (Resume k)
    then show ?thesis
      using Cons.prems closed[of "db s" "tasks s ! i"]
      by (cases "k = i") (simp_all add: split_beta)
  next
    case (Reply k result now)
    then show ?thesis
      using Cons.prems replied[of "tasks s ! i" now result]
      by (cases "k = i") simp_all
  qed
  from Cons.IH[OF Q len this] show ?case
    by (simp add: serve_all_Cons)
qed

text \<open>
  A request alone: when its statements are applied with no statement of another request
  in between, the database is the one the handler as a function gives.
\<close>

lemma served_alone:
  "\<exists>n. db (serve_all P \<lparr>db = d, tasks = ts\<rparr> (Arrive ev # replicate n (Resume (length ts)))) =
          serve P d ev"
proof -
  have run: "\<And>n. db (serve_all P \<lparr>db = d, tasks = ts\<rparr> (Arrive ev # replicate n (Resume (length ts)))) =
          fst (run_task P n d (start ev))"
    unfolding serve_all_Cons by (simp add: resume_alone)
  show ?thesis
  proof (cases ev)
    case (Register req uuid now)
    then show ?thesis using run[of "Suc (Suc (Suc (Suc 0)))"] register_run_task[of P d req uuid now]
      by (intro exI[of _ "Suc (Suc (Suc (Suc 0)))"]) simp
  next
    case (Validate token)
    then show ?thesis using run[of "Suc 0"] validate_run_task[of P d token]
      by (intro exI[of _ "Suc 0"]) simp
  next
    case (GetCoffees token)
    then show ?thesis using run[of "Suc (Suc 0)"] get_coffees_run_task[of P d token]
      by (intro exI[of _ "Suc (Suc 0)"]) simp
  next
    case (PostCoffees req clk)
    obtain n where "run_task P n d (start (PostCoffees req clk)) =
       (fst (post_coffees P clk d req), Done (snd (post_coffees P clk d req)))"
      using post_coffees_run_task by blast
    then show ?thesis using run[of n] PostCoffees
      by (intro exI[of _ n]) simp
  next
    case (AnalyzeCoffee req)
    then show ?thesis using run[of 0] by (intro exI[of _ 0]) simp
  qed
qed

section \<open>Properties of registration and validation\<close>

subsection \<open>What a registration does\<close>

lemma trim_Nil [simp]: "trim [] = []"
  by (simp add: trim_def)

lemma length_LOWER [simp]: "length (LOWER s) = length s"
  by (simp add: LOWER_def)

lemma register_valid_name:
  assumes "2 \<le> length (trim s)"
  shows "register d uuid now (register_request s) =
     (if 10 \<le> getUserCount d then (d, limit_reached)
      else if usernameExists d (trim s) then (d, username_taken)
      else case createUser d (trim s) uuid now of
             Inl e \<Rightarrow> (d, server_error)
           | Inr (d', lastID) \<Rightarrow>
               (d', registered lastID (trim s) uuid (10 - int (getUserCount d'))))"
proof -
  have "s \<noteq> []" using assms by auto
  then show ?thesis
    using assms
    by (auto simp: register_def register_request_def limit_reached_def username_taken_def
        usernameExists_def registered_def split: option.splits sum.splits)
qed

lemma start_valid_name:
  assumes "2 \<le> length (trim s)"
  shows "start (Register (register_request s) uuid now) = Register_count (trim s) uuid now"
proof -
  have "s \<noteq> []" using assms by auto
  then show ?thesis using assms by (simp add: register_request_def)
qed

lemma createUser_Inr:
  "createUser d username token now = Inr (d', lastID) \<longleftrightarrow>
     (\<not> list_ex (\<lambda>u. u_username u = username \<or> u_token u = token) (users d)
      \<and> lastID = next_id (users_seq d) (map u_id (users d))
      \<and> d' = d\<lparr>users := users d @ [\<lparr>u_id = lastID, u_username = username, u_token = token,
                                        u_created_at = now\<rparr>],
               users_seq := lastID\<rparr>)"
  by (auto simp: createUser_def Let_def)

lemma register_success:
  assumes "register d uuid now req = (d1, r)" and "status r = 200"
  shows "\<exists>s lastID. req_username req = Some (JStr s) \<and> 2 \<le> length (trim s)
           \<and> getUserCount d < 10
           \<and> \<not> usernameExists d (trim s)
           \<and> createUser d (trim s) uuid now = Inr (d1, lastID)
           \<and> r = registered lastID (trim s) uuid (10 - int (getUserCount d1))"
  using assms
  by (auto simp: register_def respond_def server_error_def usernameExists_def registered_def
      split: if_splits option.splits json.splits sum.splits)

subsection \<open>Tokens\<close>

lemma find_append_cases:
  "find p (xs @ ys) = (case find p xs of None \<Rightarrow> find p ys | Some x \<Rightarrow> Some x)"
  by (induction xs) auto

lemma find_token_append:
  "find (\<lambda>u. u_token u = t) xs = Some u \<Longrightarrow> find (\<lambda>u. u_token u = t) (xs @ ys) = Some u"
  by (induction xs) auto

text \<open>
  The row that an insert into the users table wrote is the row of its token in every
  later state of the server, whatever statements of whatever requests are applied.
\<close>

lemma validate_inserted:
  assumes "createUser d username uuid now = Inr (d1, lastID)" and "uuid \<noteq> []"
  shows "validate (db (serve_all P \<lparr>db = d1, tasks = ts\<rparr> events)) (Some uuid) =
         respond 200 [(''success'', JBool True), (''valid'', JBool True),
                      (''user'', JObj [(''id'', JNum (int lastID)), (''username'', JStr username),
                                       (''createdAt'', JNum (int now))])]"
proof -
  let ?u = "\<lparr>u_id = lastID, u_username = username, u_token = uuid, u_created_at = now\<rparr>"
  have fresh: "\<not> list_ex (\<lambda>u. u_username u = username \<or> u_token u = uuid) (users d)"
    and d1: "users d1 = users d @ [?u]"
    using assms(1) by (simp_all add: createUser_Inr)
  have "find (\<lambda>u. u_token u = uuid) (users d) = None"
    using fresh by (simp add: find_None_iff list_ex_iff)
  then have "find (\<lambda>u. u_token u = uuid) (users d1) = Some ?u"
    by (simp add: d1 find_append_cases)
  moreover obtain us where "users (db (serve_all P \<lparr>db = d1, tasks = ts\<rparr> events)) = users d1 @ us"
    using serve_all_users[of P "\<lparr>db = d1, tasks = ts\<rparr>" events] by auto
  ultimately have "getUserByToken (db (serve_all P \<lparr>db = d1, tasks = ts\<rparr> events)) uuid = Some ?u"
    by (simp add: getUserByToken_def find_token_append)
  then show ?thesis
    using assms(2) by (simp add: validate_def)
qed

lemma validate_registered:
  assumes "register d uuid now req = (d1, r)" and "status r = 200" and "uuid \<noteq> []"
  shows "\<exists>userId username spots. r = registered userId username uuid spots
     \<and> validate (db (serve_all P \<lparr>db = d1, tasks = ts\<rparr> events)) (Some uuid) =
         respond 200 [(''success'', JBool True), (''valid'', JBool True),
                      (''user'', JObj [(''id'', JNum (int userId)), (''username'', JStr username),
                                       (''createdAt'', JNum (int now))])]"
proof -
  obtain s lastID where s: "createUser d (trim s) uuid now = Inr (d1, lastID)"
    "r = registered lastID (trim s) uuid (10 - int (getUserCount d1))"
    using register_success[OF assms(1,2)] by blast
  from validate_inserted[OF s(1) assms(3)] s(2) show ?thesis by blast
qed

lemma validate_overlapping:
  assumes "step P d (Register_insert username uuid now) = (d1, Register_recount lastID username uuid)"
    and "uuid \<noteq> []" and "s2 = serve_all P \<lparr>db = d1, tasks = ts\<rparr> events"
  shows "snd (step P (db s2) (Register_recount lastID username uuid)) =
           Done (registered lastID username uuid (10 - int (getUserCount (db s2))))
       \<and> validate (db s2) (Some uuid) =
           respond 200 [(''success'', JBool True), (''valid'', JBool True),
                        (''user'', JObj [(''id'', JNum (int lastID)), (''username'', JStr username),
                                         (''createdAt'', JNum (int now))])]"
proof -
  have "createUser d username uuid now = Inr (d1, lastID)"
    using assms(1) by (cases "createUser d username uuid now") auto
  from validate_inserted[OF this assms(2)] show ?thesis
    by (simp add: assms(3) registered_def)
qed

lemma validate_unknown:
  assumes "t \<noteq> []" and "\<forall>req now. Arrive (Register req t now) \<notin> set history"
  shows "validate (db (serve_all P new_server history)) (Some t) =
           respond 401 [(''success'', JBool False), (''valid'', JBool False),
                        (''error'', JStr ''Invalid token'')]"
proof -
  obtain us where us: "users (db (serve_all P new_server history)) = users (db new_server) @ us"
    "\<forall>u \<in> set us. u_token u \<in> pending new_server \<union> (\<Union>a \<in> set history. arrival_token a)"
    using serve_all_users[of P new_server history] by blast
  have "t \<notin> (\<Union>a \<in> set history. arrival_token a)"
  proof
    assume "t \<in> (\<Union>a \<in> set history. arrival_token a)"
    then obtain a where a: "a \<in> set history" "t \<in> arrival_token a" by blast
    then obtain req now where "a = Arrive (Register req t now)"
      by (cases a rule: arrival_token.cases) auto
    with a(1) assms(2) show False by blast
  qed
  moreover have "pending new_server = {}"
    by (simp add: pending_def new_server_def)
  ultimately have "\<forall>u \<in> set us. u_token u \<noteq> t"
    using us(2) by auto
  then have "getUserByToken (db (serve_all P new_server history)) t = None"
    using us(1) by (auto simp: getUserByToken_def new_server_def empty_database_def find_None_iff)
  then show ?thesis
    using assms(1) by (simp add: validate_def)
qed

text \<open>
  Claim C5, as amended. After a successful registration that returned the token, an id
  and a username, validating that token succeeds and returns the same id and username,
  whatever the server did in between: requests that arrive, statements of requests in
  progress in any order (the token \<open>uuidv4()\<close> gave is not empty). This holds for a
  registration handled alone and for one whose statements are mixed with those of other
  requests: once its insert is done, its answer carries the id, the username and the
  token of the row, and validating the token gives that id and username. For every
  token that is not empty and that no registration received since the server started
  was given, validation answers 401 with \<open>valid: false\<close>.
\<close>

theorem token_validates:
  "(register d uuid now req = (d1, r) \<and> status r = 200 \<and> uuid \<noteq> [] \<longrightarrow>
      (\<exists>userId username spots. r = registered userId username uuid spots
        \<and> validate (db (serve_all P \<lparr>db = d1, tasks = ts\<rparr> events)) (Some uuid) =
            respond 200 [(''success'', JBool True), (''valid'', JBool True),
                         (''user'', JObj [(''id'', JNum (int userId)), (''username'', JStr username),
                                          (''createdAt'', JNum (int now))])]))
   \<and> (step P d (Register_insert name uuid now) = (d1, Register_recount lastID name uuid)
        \<and> uuid \<noteq> [] \<and> s2 = serve_all P \<lparr>db = d1, tasks = ts\<rparr> events \<longrightarrow>
        snd (step P (db s2) (Register_recount lastID name uuid)) =
           Done (registered lastID name uuid (10 - int (getUserCount (db s2))))
        \<and> validate (db s2) (Some uuid) =
            respond 200 [(''success'', JBool True), (''valid'', JBool True),
                         (''user'', JObj [(''id'', JNum (int lastID)), (''username'', JStr name),
                                          (''createdAt'', JNum (int now))])])
   \<and> (t \<noteq> [] \<and> (\<forall>req' now'. Arrive (Register req' t now') \<notin> set history) \<longrightarrow>
        validate (db (serve_all P new_server history)) (Some t) =
          respond 401 [(''success'', JBool False), (''valid'', JBool False),
                       (''error'', JStr ''Invalid token'')])"
proof (intro conjI impI)
  assume "register d uuid now req = (d1, r) \<and> status r = 200 \<and> uuid \<noteq> []"
  then show "\<exists>userId username spots. r = registered userId username uuid spots
        \<and> validate (db (serve_all P \<lparr>db = d1, tasks = ts\<rparr> events)) (Some uuid) =
            respond 200 [(''success'', JBool True), (''valid'', JBool True),
                         (''user'', JObj [(''id'', JNum (int userId)), (''username'', JStr username),
                                          (''createdAt'', JNum (int now))])]"
    using validate_registered by blast
next
  assume a: "step P d (Register_insert name uuid now) = (d1, Register_recount lastID name uuid)
        \<and> uuid \<noteq> [] \<and> s2 = serve_all P \<lparr>db = d1, tasks = ts\<rparr> events"
  then have both: "snd (step P (db s2) (Register_recount lastID name uuid)) =
           Done (registered lastID name uuid (10 - int (getUserCount (db s2))))
       \<and> validate (db s2) (Some uuid) =
           respond 200 [(''success'', JBool True), (''valid'', JBool True),
                        (''user'', JObj [(''id'', JNum (int lastID)), (''username'', JStr name),
                                         (''createdAt'', JNum (int now))])]"
    by (intro validate_overlapping[of P d name uuid now d1 lastID s2 ts events]) simp_all
  from both show "snd (step P (db s2) (Register_recount lastID name uuid)) =
           Done (registered lastID name uuid (10 - int (getUserCount (db s2))))" ..
  from both show "validate (db s2) (Some uuid) =
            respond 200 [(''success'', JBool True), (''valid'', JBool True),
                         (''user'', JObj [(''id'', JNum (int lastID)), (''username'', JStr name),
                                          (''createdAt'', JNum (int now))])]" ..
next
  assume "t \<noteq> [] \<and> (\<forall>req' now'. Arrive (Register req' t now') \<notin> set history)"
  then show "validate (db (serve_all P new_server history)) (Some t) =
          respond 401 [(''success'', JBool False), (''valid'', JBool False),
                       (''error'', JStr ''Invalid token'')]"
    using validate_unknown by blast
qed

text \<open>The first registration of the examples.\<close>

lemma alice_registers:
  "register empty_database ''T1'' 3 (register_request ''alice'') =
     (\<lparr>users = [\<lparr>u_id = 1, u_username = ''alice'', u_token = ''T1'', u_created_at = 3\<rparr>],
       coffees = [], users_seq = 1, coffees_seq = 0\<rparr>,
      registered 1 ''alice'' ''T1'' 9)"
  by (simp add: register_def register_request_def trim_def is_space_def getUserCount_def
      empty_database_def select_user_lower_def createUser_def next_id_def registered_def)

text \<open>
  Witness for C5: alice registers, saves a coffee and validates; alice's insert is
  followed by bob's registration before her count is read again; a token nobody was
  given is refused.
\<close>

theorem token_validates_witness:
  "validate (db (serve_all sample_platform
       \<lparr>db = \<lparr>users = [\<lparr>u_id = 1, u_username = ''alice'', u_token = ''T1'', u_created_at = 3\<rparr>],
               coffees = [], users_seq = 1, coffees_seq = 0\<rparr>, tasks = []\<rparr>
       [Arrive (PostCoffees (save_request ''T1'' [coffee_X]) (at_second 5)), Resume 0,
        Arrive (Validate (Some ''T1'')), Resume 0, Resume 1, Resume 0, Resume 0, Resume 0]))
     (Some ''T1'') =
     respond 200 [(''success'', JBool True), (''valid'', JBool True),
                  (''user'', JObj [(''id'', JNum 1), (''username'', JStr ''alice''),
                                   (''createdAt'', JNum 3)])]
   \<and> answered (snd (step sample_platform
        (db (serve_all sample_platform
           \<lparr>db = \<lparr>users = [\<lparr>u_id = 1, u_username = ''alice'', u_token = ''T1'', u_created_at = 3\<rparr>],
                   coffees = [], users_seq = 1, coffees_seq = 0\<rparr>, tasks = []\<rparr>
           (in_turn 0 (requests [(''bob'', ''T2'', 4)]))))
        (Register_recount 1 ''alice'' ''T1''))) = Some (registered 1 ''alice'' ''T1'' 8)
   \<and> validate (db (serve_all sample_platform new_server
        (in_turn 0 (requests [(''alice'', ''T1'', 3)])))) (Some ''T2'') =
       respond 401 [(''success'', JBool False), (''valid'', JBool False),
                    (''error'', JStr ''Invalid token'')]"
proof (intro conjI)
  let ?d1 = "\<lparr>users = [\<lparr>u_id = 1, u_username = ''alice'', u_token = ''T1'', u_created_at = 3\<rparr>],
         coffees = [], users_seq = 1, coffees_seq = 0\<rparr>"
  let ?events = "[Arrive (PostCoffees (save_request ''T1'' [coffee_X]) (at_second 5)), Resume 0,
        Arrive (Validate (Some ''T1'')), Resume 0, Resume 1, Resume 0, Resume 0, Resume 0]"
  let ?bob = "in_turn 0 (requests [(''bob'', ''T2'', 4)])"
  have "status (registered 1 ''alice'' ''T1'' 9) = 200"
    by (simp add: registered_def respond_def)
  then obtain userId username spots where r: "registered 1 ''alice'' ''T1'' 9 = registered userId username ''T1'' spots"
    and v: "validate (db (serve_all sample_platform \<lparr>db = ?d1, tasks = []\<rparr> ?events)) (Some ''T1'') =
            respond 200 [(''success'', JBool True), (''valid'', JBool True),
                         (''user'', JObj [(''id'', JNum (int userId)), (''username'', JStr username),
                                          (''createdAt'', JNum (int 3))])]"
    using token_validates[THEN conjunct1, of empty_database "''T1''" 3 "register_request ''alice''"
        ?d1 "registered 1 ''alice'' ''T1'' 9" sample_platform "[]" ?events] alice_registers
    by auto
  from r have "userId = 1" "username = ''alice''"
    by (simp_all add: registered_def respond_def)
  with v show "validate (db (serve_all sample_platform \<lparr>db = ?d1, tasks = []\<rparr> ?events)) (Some ''T1'') =
     respond 200 [(''success'', JBool True), (''valid'', JBool True),
                  (''user'', JObj [(''id'', JNum 1), (''username'', JStr ''alice''),
                                   (''createdAt'', JNum 3)])]"
    by simp
  have "step sample_platform empty_database (Register_insert ''alice'' ''T1'' 3) =
          (?d1, Register_recount 1 ''alice'' ''T1'')"
    by (simp add: createUser_def empty_database_def next_id_def)
  then have "snd (step sample_platform (db (serve_all sample_platform \<lparr>db = ?d1, tasks = []\<rparr> ?bob))
                (Register_recount 1 ''alice'' ''T1'')) =
           Done (registered 1 ''alice'' ''T1''
                  (10 - int (getUserCount (db (serve_all sample_platform \<lparr>db = ?d1, tasks = []\<rparr> ?bob)))))"
    using token_validates[THEN conjunct2, THEN conjunct1, of sample_platform empty_database
        "''alice''" "''T1''" 3 ?d1 1 "serve_all sample_platform \<lparr>db = ?d1, tasks = []\<rparr> ?bob" "[]" ?bob]
    by simp
  moreover have "getUserCount (db (serve_all sample_platform \<lparr>db = ?d1, tasks = []\<rparr> ?bob)) = 2"
    by code_simp
  ultimately show "answered (snd (step sample_platform
        (db (serve_all sample_platform \<lparr>db = ?d1, tasks = []\<rparr> ?bob))
        (Register_recount 1 ''alice'' ''T1''))) = Some (registered 1 ''alice'' ''T1'' 8)"
    by simp
  have "\<forall>req' now'. Arrive (Register req' ''T2'' now') \<notin> set (in_turn 0 (requests [(''alice'', ''T1'', 3)]))"
    by (simp add: requests_def)
  then show "validate (db (serve_all sample_platform new_server
        (in_turn 0 (requests [(''alice'', ''T1'', 3)])))) (Some ''T2'') =
       respond 401 [(''success'', JBool False), (''valid'', JBool False),
                    (''error'', JStr ''Invalid token'')]"
    using token_validates[THEN conjunct2, THEN conjunct2, of "''T2''"
        "in_turn 0 (requests [(''alice'', ''T1'', 3)])" sample_platform]
    by simp
qed

text \<open>
  Counterexample to C5 as stated: the empty token was issued by no registration, and
  validating it answers 400 \<open>Token required\<close> without a \<open>valid\<close> member, not 401.
\<close>

theorem empty_token_counterexample:
  "status (validate (db (serve_all sample_platform new_server
        (in_turn 0 (requests [(''alice'', ''T1'', 3)])))) (Some [])) = 400
   \<and> member_of (Some (json_body (validate (db (serve_all sample_platform new_server
        (in_turn 0 (requests [(''alice'', ''T1'', 3)])))) (Some [])))) ''valid'' = None"
  by (simp add: validate_def respond_def)


subsection \<open>Usernames\<close>

lemma usernameExists_iff:
  "usernameExists d x \<longleftrightarrow> (\<exists>u \<in> set (users d). LOWER (u_username u) = LOWER x)"
  by (auto simp: usernameExists_def select_user_lower_def find_None_iff)

text \<open>
  A registration for a name that is taken: in whatever order the statements of the
  requests in progress are applied, it waits for its count or for its lookup, or it has
  answered with 403 or 409. It never comes to its insert.
\<close>

lemma taken_name_confined:
  assumes "usernameExists (db s) name" and "i < length (tasks s)"
    and "tasks s ! i \<in> {Register_count name uuid now, Register_lookup name uuid now,
                          Done limit_reached, Done username_taken}"
  shows "usernameExists (db (serve_all P s actions)) name
       \<and> i < length (tasks (serve_all P s actions))
       \<and> tasks (serve_all P s actions) ! i \<in>
           {Register_count name uuid now, Register_lookup name uuid now,
            Done limit_reached, Done username_taken}"
proof -
  let ?Q = "\<lambda>d. usernameExists d name"
  let ?S = "{Register_count name uuid now, Register_lookup name uuid now,
             Done limit_reached, Done username_taken}"
  have "?Q (db (serve_all P s actions)) \<and> i < length (tasks (serve_all P s actions))
         \<and> tasks (serve_all P s actions) ! i \<in> ?S"
  proof (rule task_confined[where Q = ?Q and S = ?S])
    fix d us
    assume "usernameExists d name"
    then show "usernameExists (d\<lparr>users := users d @ us\<rparr>) name"
      by (auto simp: usernameExists_iff)
  next
    fix d d' :: database
    assume "users d' = users d" "usernameExists d name"
    then show "usernameExists d' name"
      by (simp add: usernameExists_iff)
  next
    fix d t
    assume "usernameExists d name" "t \<in> ?S"
    then consider "t = Register_count name uuid now" | "t = Register_lookup name uuid now"
      | "t = Done limit_reached" | "t = Done username_taken" by blast
    then show "snd (step P d t) \<in> ?S"
    proof cases
      case 1
      then show ?thesis by (simp add: limit_reached_def)
    next
      case 2
      then show ?thesis
        using \<open>usernameExists d name\<close> by (auto simp: usernameExists_def username_taken_def)
    qed simp_all
  next
    fix now' result t
    assume "t \<in> ?S"
    then show "answer P now' result t \<in> ?S"
      by auto
  qed (use assms in simp_all)
  then show ?thesis .
qed

text \<open>
  Claim C4, as amended. After a username was registered, a registration for a username
  that equals it, trimmed and lowercased, creates no user, whatever the server did in
  between (requests that arrive, statements of requests in progress in any order).
  Handled alone it fails with 409 while fewer than ten users exist, and with the
  capacity error 403 once ten users exist. When its statements are mixed with those of
  other requests, it is at every moment waiting for its count or for its lookup, or it
  has answered with 403 or with 409, and none of its statements changes the database.
\<close>

theorem username_conflict:
  assumes "register d uuid now (register_request first) = (d1, r1)" and "status r1 = 200"
    and "LOWER (trim later) = LOWER (trim first)"
    and "s2 = serve_all P \<lparr>db = d1, tasks = ts\<rparr> events"
    and "s3 = serve_all P (act P s2 (Arrive (Register (register_request later) uuid' now'))) afterwards"
  shows "register (db s2) uuid' now' (register_request later) =
           (db s2, if 10 \<le> getUserCount (db s2) then limit_reached else username_taken)
       \<and> tasks s3 ! length (tasks s2) \<in>
           {Register_count (trim later) uuid' now', Register_lookup (trim later) uuid' now',
            Done limit_reached, Done username_taken}
       \<and> db (act P s3 (Resume (length (tasks s2)))) = db s3"
proof (intro conjI)
  obtain s lastID where s: "req_username (register_request first) = Some (JStr s)" "2 \<le> length (trim s)"
    and cu: "createUser d (trim s) uuid now = Inr (d1, lastID)"
    using register_success[OF assms(1,2)] by blast
  have first: "s = first"
    using s(1) by (simp add: register_request_def)
  let ?u = "\<lparr>u_id = lastID, u_username = trim first, u_token = uuid, u_created_at = now\<rparr>"
  have d1: "users d1 = users d @ [?u]"
    using cu first by (simp add: createUser_Inr)
  obtain us where "users (db s2) = users d1 @ us"
    using serve_all_users[of P "\<lparr>db = d1, tasks = ts\<rparr>" events] assms(4) by auto
  then have "?u \<in> set (users (db s2))"
    using d1 by simp
  then have "\<exists>u \<in> set (users (db s2)). LOWER (u_username u) = LOWER (trim later)"
    using assms(3) by force
  then have taken: "usernameExists (db s2) (trim later)"
    by (simp add: usernameExists_iff)
  have "length (trim later) = length (trim first)"
    using arg_cong[OF assms(3), of length] by simp
  then have long: "2 \<le> length (trim later)"
    using s(2) first by simp
  then show "register (db s2) uuid' now' (register_request later) =
           (db s2, if 10 \<le> getUserCount (db s2) then limit_reached else username_taken)"
    using taken by (simp add: register_valid_name)
  let ?arrived = "act P s2 (Arrive (Register (register_request later) uuid' now'))"
  have "usernameExists (db ?arrived) (trim later)"
    using taken by simp
  moreover have "length (tasks s2) < length (tasks ?arrived)"
    by simp
  moreover have "tasks ?arrived ! length (tasks s2) \<in>
           {Register_count (trim later) uuid' now', Register_lookup (trim later) uuid' now',
            Done limit_reached, Done username_taken}"
    by (simp del: start.simps add: start_valid_name[OF long])
  ultimately have confined: "usernameExists (db s3) (trim later)
       \<and> length (tasks s2) < length (tasks s3)
       \<and> tasks s3 ! length (tasks s2) \<in>
           {Register_count (trim later) uuid' now', Register_lookup (trim later) uuid' now',
            Done limit_reached, Done username_taken}"
    unfolding assms(5) by (rule taken_name_confined)
  then show "tasks s3 ! length (tasks s2) \<in>
           {Register_count (trim later) uuid' now', Register_lookup (trim later) uuid' now',
            Done limit_reached, Done username_taken}"
    by blast
  from confined show "db (act P s3 (Resume (length (tasks s2)))) = db s3"
    by (auto simp: split_beta)
qed

text \<open>Witness for C4: after \<open>alice\<close>, a registration for \<open>ALICE\<close> with spaces around it.\<close>

theorem username_conflict_witness:
  "register \<lparr>users = [\<lparr>u_id = 1, u_username = ''alice'', u_token = ''T1'', u_created_at = 3\<rparr>],
         coffees = [], users_seq = 1, coffees_seq = 0\<rparr> ''T2'' 4 (register_request '' ALICE '') =
     (\<lparr>users = [\<lparr>u_id = 1, u_username = ''alice'', u_token = ''T1'', u_created_at = 3\<rparr>],
         coffees = [], users_seq = 1, coffees_seq = 0\<rparr>, username_taken)
   \<and> db (serve_all sample_platform
        \<lparr>db = \<lparr>users = [\<lparr>u_id = 1, u_username = ''alice'', u_token = ''T1'', u_created_at = 3\<rparr>],
                coffees = [], users_seq = 1, coffees_seq = 0\<rparr>, tasks = []\<rparr>
        [Arrive (Register (register_request '' ALICE '') ''T2'' 4), Resume 0, Resume 0]) =
      \<lparr>users = [\<lparr>u_id = 1, u_username = ''alice'', u_token = ''T1'', u_created_at = 3\<rparr>],
         coffees = [], users_seq = 1, coffees_seq = 0\<rparr>"
proof -
  let ?d1 = "\<lparr>users = [\<lparr>u_id = 1, u_username = ''alice'', u_token = ''T1'', u_created_at = 3\<rparr>],
         coffees = [], users_seq = 1, coffees_seq = 0\<rparr>"
  let ?s2 = "\<lparr>db = ?d1, tasks = []\<rparr>"
  let ?s3 = "serve_all sample_platform
               (act sample_platform ?s2 (Arrive (Register (register_request '' ALICE '') ''T2'' 4)))
               [Resume 0]"
  have "status (registered 1 ''alice'' ''T1'' 9) = 200"
    by (simp add: registered_def respond_def)
  moreover have "LOWER (trim '' ALICE '') = LOWER (trim ''alice'')"
    by code_simp
  moreover have "?s2 = serve_all sample_platform \<lparr>db = ?d1, tasks = []\<rparr> []"
    by simp
  moreover have "?s3 = ?s3"
    by simp
  ultimately have "register (db ?s2) ''T2'' 4 (register_request '' ALICE '') =
           (db ?s2, if 10 \<le> getUserCount (db ?s2) then limit_reached else username_taken)
       \<and> tasks ?s3 ! length (tasks ?s2) \<in>
           {Register_count (trim '' ALICE '') ''T2'' 4, Register_lookup (trim '' ALICE '') ''T2'' 4,
            Done limit_reached, Done username_taken}
       \<and> db (act sample_platform ?s3 (Resume (length (tasks ?s2)))) = db ?s3"
    by (rule username_conflict[OF alice_registers])
  then have "register ?d1 ''T2'' 4 (register_request '' ALICE '') = (?d1, username_taken)"
    and "db (act sample_platform ?s3 (Resume 0)) = db ?s3"
    by (simp_all add: getUserCount_def)
  moreover have "db ?s3 = ?d1"
    by code_simp
  moreover have "serve_all sample_platform ?s2
        [Arrive (Register (register_request '' ALICE '') ''T2'' 4), Resume 0, Resume 0] =
      act sample_platform ?s3 (Resume 0)"
    by (simp only: serve_all_Cons serve_all_Nil)
  ultimately show ?thesis by simp
qed

text \<open>
  Counterexample to C4 as stated: with ten users registered, the first of them
  \<open>Coffee\<close>, a registration for \<open>COFFEE\<close> fails with 403, not with 409.
\<close>

theorem username_conflict_counterexample:
  "usernameExists full_db (trim ''COFFEE'')
   \<and> status (snd (register full_db ''T10'' 10 (register_request ''COFFEE''))) = 403
   \<and> status (snd (register full_db ''T10'' 10 (register_request ''COFFEE''))) \<noteq> 409"
  by code_simp


subsection \<open>The cap\<close>

lemma register_fresh:
  assumes "2 \<le> length (trim name)" and "length (users d) < 10"
    and "\<not> usernameExists d (trim name)" and "uuid \<notin> u_token ` set (users d)"
  shows "register d uuid now (register_request name) =
     (d\<lparr>users := users d @ [\<lparr>u_id = next_id (users_seq d) (map u_id (users d)),
                               u_username = trim name, u_token = uuid, u_created_at = now\<rparr>],
        users_seq := next_id (users_seq d) (map u_id (users d))\<rparr>,
      registered (next_id (users_seq d) (map u_id (users d))) (trim name) uuid
        (9 - int (length (users d))))"
proof -
  have "\<not> list_ex (\<lambda>u. u_username u = trim name \<or> u_token u = uuid) (users d)"
    using assms(3,4) by (auto simp: list_ex_iff usernameExists_iff)
  then show ?thesis
    using assms(1,2,3)
    by (simp add: register_valid_name createUser_def Let_def getUserCount_def)
qed

lemma register_full:
  assumes "2 \<le> length (trim name)" and "10 \<le> getUserCount d"
  shows "register d uuid now (register_request name) = (d, limit_reached)"
  using assms by (simp add: register_valid_name)

lemma register_all_responses:
  assumes "\<forall>reg \<in> set regs.
             2 \<le> length (trim (fst reg)) \<and> \<not> usernameExists d (trim (fst reg))
             \<and> fst (snd reg) \<notin> u_token ` set (users d)"
    and "distinct (map (\<lambda>reg. LOWER (trim (fst reg))) regs)"
    and "distinct (map (\<lambda>reg. fst (snd reg)) regs)"
  shows "snd (register_all d (requests regs)) =
     map (\<lambda>k. if length (users d) + k < 10
               then registered (next_id (users_seq d) (map u_id (users d)) + k)
                      (trim (fst (regs ! k))) (fst (snd (regs ! k)))
                      (9 - int (length (users d) + k))
               else limit_reached) [0..<length regs]"
  using assms
proof (induction regs arbitrary: d)
  case Nil
  then show ?case by (simp add: requests_def)
next
  case (Cons reg regs)
  obtain name uuid now where reg: "reg = (name, uuid, now)" by (cases reg)
  have valid: "2 \<le> length (trim name)" "\<not> usernameExists d (trim name)"
    "uuid \<notin> u_token ` set (users d)"
    using Cons.prems(1) reg by auto
  have d2: "distinct (map (\<lambda>reg. LOWER (trim (fst reg))) regs)"
    and d3: "distinct (map (\<lambda>reg. fst (snd reg)) regs)"
    using Cons.prems(2,3) by simp_all
  show ?case
  proof (cases "length (users d) < 10")
    case False
    then have full: "register d uuid now (register_request name) = (d, limit_reached)"
      using valid(1) by (simp add: register_full getUserCount_def)
    have "\<forall>reg \<in> set regs.
             2 \<le> length (trim (fst reg)) \<and> \<not> usernameExists d (trim (fst reg))
             \<and> fst (snd reg) \<notin> u_token ` set (users d)"
      using Cons.prems(1) by simp
    from Cons.IH[OF this d2 d3] False full show ?thesis
      by (simp add: requests_def reg map_upt_Suc split_beta del: upt_Suc)
  next
    case True
    let ?first = "next_id (users_seq d) (map u_id (users d))"
    let ?d1 = "d\<lparr>users := users d @ [\<lparr>u_id = ?first, u_username = trim name, u_token = uuid,
                                        u_created_at = now\<rparr>],
                 users_seq := ?first\<rparr>"
    have ok: "register d uuid now (register_request name) =
        (?d1, registered ?first (trim name) uuid (9 - int (length (users d))))"
      using register_fresh[OF valid(1) True valid(2,3)] .
    have "\<forall>reg' \<in> set regs.
             2 \<le> length (trim (fst reg')) \<and> \<not> usernameExists ?d1 (trim (fst reg'))
             \<and> fst (snd reg') \<notin> u_token ` set (users ?d1)"
    proof
      fix reg'
      assume mem: "reg' \<in> set regs"
      then have a: "2 \<le> length (trim (fst reg'))" "\<not> usernameExists d (trim (fst reg'))"
        "fst (snd reg') \<notin> u_token ` set (users d)"
        using Cons.prems(1) by auto
      have "LOWER (trim name) \<noteq> LOWER (trim (fst reg'))"
        using Cons.prems(2) reg mem by force
      moreover have "uuid \<noteq> fst (snd reg')"
        using Cons.prems(3) reg mem by force
      ultimately show "2 \<le> length (trim (fst reg')) \<and> \<not> usernameExists ?d1 (trim (fst reg'))
             \<and> fst (snd reg') \<notin> u_token ` set (users ?d1)"
        using a by (auto simp: usernameExists_iff)
    qed
    from Cons.IH[OF this d2 d3] ok True show ?thesis
      by (simp add: requests_def reg map_upt_Suc split_beta next_id_step del: upt_Suc)
  qed
qed


text \<open>
  A registration that arrived when ten users existed: in whatever order the statements
  of the requests in progress are applied, it waits for its count or has answered 403.
\<close>

lemma full_confined:
  assumes "10 \<le> getUserCount (db s)" and "i < length (tasks s)"
    and "tasks s ! i \<in> {Register_count name uuid now, Done limit_reached}"
  shows "10 \<le> getUserCount (db (serve_all P s actions))
       \<and> i < length (tasks (serve_all P s actions))
       \<and> tasks (serve_all P s actions) ! i \<in> {Register_count name uuid now, Done limit_reached}"
proof (rule task_confined[where Q = "\<lambda>d. 10 \<le> getUserCount d"
      and S = "{Register_count name uuid now, Done limit_reached}"])
  fix d us
  assume "10 \<le> getUserCount d"
  then show "10 \<le> getUserCount (d\<lparr>users := users d @ us\<rparr>)"
    by (simp add: getUserCount_def)
next
  fix d d' :: database
  assume "users d' = users d" "10 \<le> getUserCount d"
  then show "10 \<le> getUserCount d'"
    by (simp add: getUserCount_def)
next
  fix d t
  assume "10 \<le> getUserCount d" "t \<in> {Register_count name uuid now, Done limit_reached}"
  then show "snd (step P d t) \<in> {Register_count name uuid now, Done limit_reached}"
    by (auto simp: limit_reached_def)
next
  fix now' result t
  assume "t \<in> {Register_count name uuid now, Done limit_reached}"
  then show "answer P now' result t \<in> {Register_count name uuid now, Done limit_reached}"
    by auto
qed (use assms in simp_all)

lemma full_answer:
  assumes "10 \<le> getUserCount (db s)" and "2 \<le> length (trim name)"
    and "s2 = serve_all P (act P s (Arrive (Register (register_request name) uuid now))) actions"
  shows "act P s2 (Resume (length (tasks s))) =
           s2\<lparr>tasks := (tasks s2)[length (tasks s) := Done limit_reached]\<rparr>"
proof -
  let ?arrived = "act P s (Arrive (Register (register_request name) uuid now))"
  have "10 \<le> getUserCount (db ?arrived)"
    using assms(1) by simp
  moreover have "length (tasks s) < length (tasks ?arrived)"
    by simp
  moreover have "tasks ?arrived ! length (tasks s) \<in> {Register_count (trim name) uuid now, Done limit_reached}"
    by (simp del: start.simps add: start_valid_name[OF assms(2)])
  ultimately have "10 \<le> getUserCount (db s2) \<and> length (tasks s) < length (tasks s2)
       \<and> tasks s2 ! length (tasks s) \<in> {Register_count (trim name) uuid now, Done limit_reached}"
    unfolding assms(3) by (rule full_confined)
  then show ?thesis
    by (auto simp: limit_reached_def)
qed

lemma in_turn_responses:
  "map answered (tasks (serve_all P new_server (in_turn 0 reqs))) =
     map Some (snd (register_all empty_database reqs))"
  using in_turn_register_all[of P empty_database "[]" reqs]
  by (simp add: new_server_def comp_def)

text \<open>
  Claim C2, as amended. When registrations with usernames of trimmed length at least 2
  that differ from each other when lowercased, and with tokens that differ, arrive at a
  new server one after the other, each when the one before it has been answered, the
  first ten succeed, the k-th with id k and with \<open>spotsRemaining = 10 - k\<close> (9 down to
  0), and every later one fails with the capacity response (403, \<open>spotsRemaining\<close> 0).
  A registration with a username of trimmed length at least 2 that arrives when ten or
  more users exist is answered with the capacity response, whatever the server does
  between its arrival and the reading of its count, and its statement leaves the
  database as it is. In every run of the server in which a registration only arrives
  when no other registration is in progress, requests of the other kinds being free to
  overlap, at most ten users exist.
\<close>

theorem registration_cap:
  assumes "\<forall>reg \<in> set regs. 2 \<le> length (trim (fst reg))"
    and "distinct (map (\<lambda>reg. LOWER (trim (fst reg))) regs)"
    and "distinct (map (\<lambda>reg. fst (snd reg)) regs)"
  shows "map answered (tasks (serve_all P new_server (in_turn 0 (requests regs)))) =
           map (\<lambda>k. Some (if k < 10
                           then registered (Suc k) (trim (fst (regs ! k))) (fst (snd (regs ! k)))
                                  (9 - int k)
                           else limit_reached)) [0..<length regs]
     \<and> (\<forall>s name uuid now actions s2.
            10 \<le> getUserCount (db s) \<and> 2 \<le> length (trim name)
            \<and> s2 = serve_all P (act P s (Arrive (Register (register_request name) uuid now))) actions
            \<longrightarrow> act P s2 (Resume (length (tasks s))) =
                  s2\<lparr>tasks := (tasks s2)[length (tasks s) := Done limit_reached]\<rparr>)
     \<and> (\<forall>actions. registrations_in_turn P new_server actions \<longrightarrow>
            getUserCount (db (serve_all P new_server actions)) \<le> 10)"
proof (intro conjI allI impI)
  have "\<forall>reg \<in> set regs.
             2 \<le> length (trim (fst reg)) \<and> \<not> usernameExists empty_database (trim (fst reg))
             \<and> fst (snd reg) \<notin> u_token ` set (users empty_database)"
    using assms(1) by (simp add: usernameExists_iff empty_database_def)
  from register_all_responses[OF this assms(2,3)]
  have "snd (register_all empty_database (requests regs)) =
           map (\<lambda>k. if k < 10
                     then registered (Suc k) (trim (fst (regs ! k))) (fst (snd (regs ! k))) (9 - int k)
                     else limit_reached) [0..<length regs]"
    by (simp add: empty_database_def next_id_def)
  then show "map answered (tasks (serve_all P new_server (in_turn 0 (requests regs)))) =
           map (\<lambda>k. Some (if k < 10
                           then registered (Suc k) (trim (fst (regs ! k))) (fst (snd (regs ! k)))
                                  (9 - int k)
                           else limit_reached)) [0..<length regs]"
    unfolding in_turn_responses by (simp add: comp_def)
next
  fix s name uuid now actions s2
  assume "10 \<le> getUserCount (db s) \<and> 2 \<le> length (trim name)
            \<and> s2 = serve_all P (act P s (Arrive (Register (register_request name) uuid now))) actions"
  then show "act P s2 (Resume (length (tasks s))) =
                  s2\<lparr>tasks := (tasks s2)[length (tasks s) := Done limit_reached]\<rparr>"
    using full_answer[of s name s2 P uuid now actions] by blast
next
  fix actions
  assume "registrations_in_turn P new_server actions"
  then have "cap_invariant (serve_all P new_server actions)"
    using serve_all_cap_invariant[OF new_server_cap_invariant] by blast
  then show "getUserCount (db (serve_all P new_server actions)) \<le> 10"
    by (simp add: cap_invariant_def getUserCount_def)
qed

text \<open>
  Witness for C2: eleven registrations in turn, a registration that arrives at the full
  database and whose count is read after another request was answered, and the number of
  users after the eleven registrations.
\<close>

theorem registration_cap_witness:
  "map answered (tasks (serve_all sample_platform new_server
       (in_turn 0 (requests (ten_registrations @ [(''kate'', ''T10'', 10)]))))) =
     [Some (registered 1 ''Coffee'' ''T0'' 9), Some (registered 2 ''bob'' ''T1'' 8),
      Some (registered 3 ''carol'' ''T2'' 7), Some (registered 4 ''dave'' ''T3'' 6),
      Some (registered 5 ''erin'' ''T4'' 5), Some (registered 6 ''frank'' ''T5'' 4),
      Some (registered 7 ''grace'' ''T6'' 3), Some (registered 8 ''heidi'' ''T7'' 2),
      Some (registered 9 ''ivan'' ''T8'' 1), Some (registered 10 ''judy'' ''T9'' 0),
      Some limit_reached]
   \<and> act sample_platform
        (serve_all sample_platform
           (act sample_platform \<lparr>db = full_db, tasks = []\<rparr>
              (Arrive (Register (register_request ''zoe'') ''T11'' 11)))
           [Arrive (Validate (Some ''T0'')), Resume 1])
        (Resume 0) =
      (serve_all sample_platform
           (act sample_platform \<lparr>db = full_db, tasks = []\<rparr>
              (Arrive (Register (register_request ''zoe'') ''T11'' 11)))
           [Arrive (Validate (Some ''T0'')), Resume 1])
        \<lparr>tasks := (tasks (serve_all sample_platform
           (act sample_platform \<lparr>db = full_db, tasks = []\<rparr>
              (Arrive (Register (register_request ''zoe'') ''T11'' 11)))
           [Arrive (Validate (Some ''T0'')), Resume 1]))[0 := Done limit_reached]\<rparr>
   \<and> getUserCount (db (serve_all sample_platform new_server
        (in_turn 0 (requests (ten_registrations @ [(''kate'', ''T10'', 10)]))))) \<le> 10"
proof (intro conjI)
  let ?regs = "ten_registrations @ [(''kate'', ''T10'', 10)]"
  let ?s = "\<lparr>db = full_db, tasks = []\<rparr>"
  let ?s2 = "serve_all sample_platform
           (act sample_platform ?s (Arrive (Register (register_request ''zoe'') ''T11'' 11)))
           [Arrive (Validate (Some ''T0'')), Resume 1]"
  have h1: "\<forall>reg \<in> set ?regs. 2 \<le> length (trim (fst reg))"
    by code_simp
  have h2: "distinct (map (\<lambda>reg. LOWER (trim (fst reg))) ?regs)"
    by code_simp
  have h3: "distinct (map (\<lambda>reg. fst (snd reg)) ?regs)"
    by code_simp
  note cap = registration_cap[OF h1 h2 h3, of sample_platform]
  have "map (\<lambda>k. Some (if k < 10
                     then registered (Suc k) (trim (fst (?regs ! k))) (fst (snd (?regs ! k))) (9 - int k)
                     else limit_reached)) [0..<length ?regs] =
     [Some (registered 1 ''Coffee'' ''T0'' 9), Some (registered 2 ''bob'' ''T1'' 8),
      Some (registered 3 ''carol'' ''T2'' 7), Some (registered 4 ''dave'' ''T3'' 6),
      Some (registered 5 ''erin'' ''T4'' 5), Some (registered 6 ''frank'' ''T5'' 4),
      Some (registered 7 ''grace'' ''T6'' 3), Some (registered 8 ''heidi'' ''T7'' 2),
      Some (registered 9 ''ivan'' ''T8'' 1), Some (registered 10 ''judy'' ''T9'' 0),
      Some limit_reached]"
    by code_simp
  with cap[THEN conjunct1]
  show "map answered (tasks (serve_all sample_platform new_server (in_turn 0 (requests ?regs)))) =
     [Some (registered 1 ''Coffee'' ''T0'' 9), Some (registered 2 ''bob'' ''T1'' 8),
      Some (registered 3 ''carol'' ''T2'' 7), Some (registered 4 ''dave'' ''T3'' 6),
      Some (registered 5 ''erin'' ''T4'' 5), Some (registered 6 ''frank'' ''T5'' 4),
      Some (registered 7 ''grace'' ''T6'' 3), Some (registered 8 ''heidi'' ''T7'' 2),
      Some (registered 9 ''ivan'' ''T8'' 1), Some (registered 10 ''judy'' ''T9'' 0),
      Some limit_reached]"
    by (rule trans)
  have "10 \<le> getUserCount full_db \<and> 2 \<le> length (trim ''zoe'')"
    by code_simp
  then have "10 \<le> getUserCount (db ?s) \<and> 2 \<le> length (trim ''zoe'') \<and> ?s2 = ?s2"
    by simp
  with cap[THEN conjunct2, THEN conjunct1]
  have "act sample_platform ?s2 (Resume (length (tasks ?s))) =
          ?s2\<lparr>tasks := (tasks ?s2)[length (tasks ?s) := Done limit_reached]\<rparr>"
    by blast
  then show "act sample_platform ?s2 (Resume 0) = ?s2\<lparr>tasks := (tasks ?s2)[0 := Done limit_reached]\<rparr>"
    by simp
  have "registrations_in_turn sample_platform new_server (in_turn 0 (requests ?regs))"
    by code_simp
  with cap[THEN conjunct2, THEN conjunct2]
  show "getUserCount (db (serve_all sample_platform new_server (in_turn 0 (requests ?regs)))) \<le> 10"
    by blast
qed

text \<open>
  Counterexample to C2 as stated. Two registrations for \<open>alice\<close>, one after the other
  at a new server: the second, with a username of length 5 and one user registered, is
  refused with 409. Eleven registrations with eleven names, the last two overlapping:
  both read the count 9 before either inserts, both insert, and the server has eleven
  users; the eleventh registration is answered with 200 and \<open>spotsRemaining\<close> -1.
\<close>

theorem registration_cap_counterexample:
  "map answered (tasks (serve_all sample_platform new_server alice_twice)) =
     [Some (registered 1 ''alice'' ''T1'' 9), Some username_taken]
   \<and> getUserCount (db (serve_all sample_platform new_server overlapping)) = 11
   \<and> map answered (drop 9 (tasks (serve_all sample_platform new_server overlapping))) =
       [Some (registered 10 ''judy'' ''T9'' (-1)), Some (registered 11 ''kate'' ''T10'' (-1))]"
  by code_simp

end
